theory Spec2Isabelle
  imports Main "HOL-Library.Word"
begin

unbundle bit_operations_syntax

section \<open>Opcodes\<close>

type_synonym byte = "8 word"

text \<open>
  Modelled from the spec: the opcode constants \<open>PUSH1\<close>, \<open>PUSH32\<close> and \<open>JUMPDEST\<close> are
  declared in \<open>core/vm/opcodes.go\<close>, which is not among the sources. The spec describes
  a push-literal family of widths 1..32 "determined by the opcode's numeric offset from
  the first push opcode"; the comment at the comparison in \<open>codeBitmapInternal\<close> says that
  \<open>int8(op) > int8(PUSH32)\<close> is always false, which makes \<open>PUSH32\<close> the largest positive
  \<open>int8\<close>, \<open>0x7F\<close>, and so \<open>PUSH1 = 0x60\<close>. \<open>JUMPDEST\<close> is the EVM's \<open>0x5B\<close>.
\<close>

definition PUSH1 :: byte where
  "PUSH1 = 0x60"

definition PUSH32 :: byte where
  "PUSH32 = 0x7F"

definition JUMPDEST :: byte where
  "JUMPDEST = 0x5B"

section \<open>The bit vector\<close>

text \<open>
  \<open>type BitVec []byte\<close>. Positions (\<open>uint64\<close> in the source) are natural numbers here:
  a Go slice has at most \<open>2^63 - 1\<close> elements and the scan never moves \<open>pc\<close> beyond
  \<open>len(code) + 32\<close>, so no position wraps around. An index outside the slice panics
  in Go; every indexed access below returns \<open>None\<close> there.
\<close>

type_synonym BitVec = "byte list"

definition set2BitsMask :: "16 word" where
  "set2BitsMask = 0b11"

definition set3BitsMask :: "16 word" where
  "set3BitsMask = 0b111"

definition set4BitsMask :: "16 word" where
  "set4BitsMask = 0b1111"

definition set5BitsMask :: "16 word" where
  "set5BitsMask = 0b11111"

definition set6BitsMask :: "16 word" where
  "set6BitsMask = 0b111111"

definition set7BitsMask :: "16 word" where
  "set7BitsMask = 0b1111111"

text \<open>\<open>bits[i] = v\<close> and \<open>bits[i] |= v\<close>, with the bounds check of the Go runtime.\<close>

definition store :: "BitVec \<Rightarrow> nat \<Rightarrow> byte \<Rightarrow> BitVec option" where
  "store bits i v = (if i < length bits then Some (bits[i := v]) else None)"

definition or_store :: "BitVec \<Rightarrow> nat \<Rightarrow> byte \<Rightarrow> BitVec option" where
  "or_store bits i v = (if i < length bits then Some (bits[i := bits ! i OR v]) else None)"

definition set1 :: "BitVec \<Rightarrow> nat \<Rightarrow> BitVec option" where
  "set1 bits pos = or_store bits (pos div 8) (push_bit (pos mod 8) 1)"

definition setN :: "BitVec \<Rightarrow> 16 word \<Rightarrow> nat \<Rightarrow> BitVec option" where
  "setN bits flag pos =
     (let a = push_bit (pos mod 8) flag in
      case or_store bits (pos div 8) (ucast a) of
        None \<Rightarrow> None
      | Some bits1 \<Rightarrow>
          (let b = (ucast (drop_bit 8 a) :: byte) in
           if b \<noteq> 0 then store bits1 (pos div 8 + 1) b else Some bits1))"

definition set8 :: "BitVec \<Rightarrow> nat \<Rightarrow> BitVec option" where
  "set8 bits pos =
     (let a = (push_bit (pos mod 8) 0xFF :: byte) in
      case or_store bits (pos div 8) a of
        None \<Rightarrow> None
      | Some bits1 \<Rightarrow> store bits1 (pos div 8 + 1) (NOT a))"

definition set16 :: "BitVec \<Rightarrow> nat \<Rightarrow> BitVec option" where
  "set16 bits pos =
     (let a = (push_bit (pos mod 8) 0xFF :: byte) in
      case or_store bits (pos div 8) a of
        None \<Rightarrow> None
      | Some bits1 \<Rightarrow>
          (case store bits1 (pos div 8 + 1) 0xFF of
             None \<Rightarrow> None
           | Some bits2 \<Rightarrow> store bits2 (pos div 8 + 2) (NOT a)))"

text \<open>\<open>codeSegment\<close>: the position is in a code segment iff its bit is unset.\<close>

definition codeSegment :: "BitVec \<Rightarrow> nat \<Rightarrow> bool option" where
  "codeSegment bits pos =
     (if pos div 8 < length bits
      then Some ((drop_bit (pos mod 8) (bits ! (pos div 8)) AND 1) = 0)
      else None)"

section \<open>The scan\<close>

text \<open>
  The two inner loops of \<open>codeBitmapInternal\<close>. \<open>numbits\<close> is a byte in the source; it
  is computed as a byte below (\<open>op - PUSH1 + 1\<close>) and then only decreases, by 16 or 8
  under a guard that it is at least that much, so it is counted as a natural number.
\<close>

function loop16 :: "BitVec \<Rightarrow> nat \<Rightarrow> nat \<Rightarrow> (BitVec \<times> nat \<times> nat) option" where
  "loop16 bits pc numbits =
     (if numbits \<ge> 16
      then (case set16 bits pc of
              None \<Rightarrow> None
            | Some bits' \<Rightarrow> loop16 bits' (pc + 16) (numbits - 16))
      else Some (bits, pc, numbits))"
  by pat_completeness auto
termination
  by (relation "measure (\<lambda>(bits, pc, numbits). numbits)") auto

function loop8 :: "BitVec \<Rightarrow> nat \<Rightarrow> nat \<Rightarrow> (BitVec \<times> nat \<times> nat) option" where
  "loop8 bits pc numbits =
     (if numbits \<ge> 8
      then (case set8 bits pc of
              None \<Rightarrow> None
            | Some bits' \<Rightarrow> loop8 bits' (pc + 8) (numbits - 8))
      else Some (bits, pc, numbits))"
  by pat_completeness auto
termination
  by (relation "measure (\<lambda>(bits, pc, numbits). numbits)") auto

declare loop16.simps [simp del] loop8.simps [simp del]

text \<open>The \<open>switch numbits\<close> at the end of an iteration; no case matches 0 or 8 and above.\<close>

definition switch_numbits :: "BitVec \<Rightarrow> nat \<Rightarrow> nat \<Rightarrow> (BitVec \<times> nat) option" where
  "switch_numbits bits pc numbits =
     (if numbits = 1 then map_option (\<lambda>b. (b, pc + 1)) (set1 bits pc)
      else if numbits = 2 then map_option (\<lambda>b. (b, pc + 2)) (setN bits set2BitsMask pc)
      else if numbits = 3 then map_option (\<lambda>b. (b, pc + 3)) (setN bits set3BitsMask pc)
      else if numbits = 4 then map_option (\<lambda>b. (b, pc + 4)) (setN bits set4BitsMask pc)
      else if numbits = 5 then map_option (\<lambda>b. (b, pc + 5)) (setN bits set5BitsMask pc)
      else if numbits = 6 then map_option (\<lambda>b. (b, pc + 6)) (setN bits set6BitsMask pc)
      else if numbits = 7 then map_option (\<lambda>b. (b, pc + 7)) (setN bits set7BitsMask pc)
      else Some (bits, pc))"

text \<open>
  The part of an iteration that follows \<open>numbits := op - PUSH1 + 1\<close>: the guarded
  loops, then the switch.
\<close>

definition mark_push :: "BitVec \<Rightarrow> nat \<Rightarrow> nat \<Rightarrow> (BitVec \<times> nat) option" where
  "mark_push bits pc numbits =
     (case (if numbits \<ge> 8
            then (case loop16 bits pc numbits of
                    None \<Rightarrow> None
                  | Some (bits1, pc1, numbits1) \<Rightarrow> loop8 bits1 pc1 numbits1)
            else Some (bits, pc, numbits)) of
        None \<Rightarrow> None
      | Some (bits2, pc2, numbits2) \<Rightarrow> switch_numbits bits2 pc2 numbits2)"

text \<open>
  One iteration of the outer loop, entered with \<open>pc < len(code)\<close> and \<open>op = code[pc]\<close>.
  The test \<open>int8(op) < int8(PUSH1)\<close> compares the bytes as signed values.
\<close>

definition loop_body :: "byte \<Rightarrow> BitVec \<Rightarrow> nat \<Rightarrow> (BitVec \<times> nat) option" where
  "loop_body op bits pc =
     (if sint op < sint PUSH1 then Some (bits, pc + 1)
      else mark_push bits (pc + 1) (unat (op - PUSH1 + 1)))"


subsection \<open>Progress of one iteration\<close>

text \<open>
  Whatever the bit vector, an iteration that does not panic leaves \<open>pc\<close> larger than
  it found it. This is what makes the outer loop a total function.
\<close>

lemma loop16_pc_le: "loop16 bits pc n = Some r \<Longrightarrow> pc \<le> fst (snd r)"
proof (induction bits pc n rule: loop16.induct)
  case (1 bits pc n)
  show ?case
  proof (cases "16 \<le> n")
    case False
    with "1.prems" show ?thesis by (subst (asm) loop16.simps) auto
  next
    case True
    with "1.prems" obtain b1 where s: "set16 bits pc = Some b1"
      and r: "loop16 b1 (pc + 16) (n - 16) = Some r"
      by (subst (asm) loop16.simps) (auto split: option.splits)
    from "1.IH" [OF True s r] show ?thesis by simp
  qed
qed

lemma loop8_pc_le: "loop8 bits pc n = Some r \<Longrightarrow> pc \<le> fst (snd r)"
proof (induction bits pc n rule: loop8.induct)
  case (1 bits pc n)
  show ?case
  proof (cases "8 \<le> n")
    case False
    with "1.prems" show ?thesis by (subst (asm) loop8.simps) auto
  next
    case True
    with "1.prems" obtain b1 where s: "set8 bits pc = Some b1"
      and r: "loop8 b1 (pc + 8) (n - 8) = Some r"
      by (subst (asm) loop8.simps) (auto split: option.splits)
    from "1.IH" [OF True s r] show ?thesis by simp
  qed
qed

lemma switch_numbits_pc_le: "switch_numbits bits pc n = Some r \<Longrightarrow> pc \<le> snd r"
  by (auto simp add: switch_numbits_def split: if_splits)

lemma mark_push_pc_le:
  assumes "mark_push bits pc n = Some r"
  shows "pc \<le> snd r"
proof (cases "8 \<le> n")
  case False
  with assms show ?thesis
    by (auto simp add: mark_push_def dest: switch_numbits_pc_le)
next
  case True
  with assms obtain b1 p1 n1 b2 p2 n2 where
    a: "loop16 bits pc n = Some (b1, p1, n1)" and
    b: "loop8 b1 p1 n1 = Some (b2, p2, n2)" and
    c: "switch_numbits b2 p2 n2 = Some r"
    by (auto simp add: mark_push_def split: option.splits)
  from loop16_pc_le [OF a] loop8_pc_le [OF b] switch_numbits_pc_le [OF c]
  show ?thesis by simp
qed

lemma loop_body_pc_less: "loop_body op bits pc = Some (bits', pc') \<Longrightarrow> pc < pc'"
  by (auto simp add: loop_body_def split: if_splits dest: mark_push_pc_le)

subsection \<open>The outer loop\<close>

text \<open>
  \<open>for pc := uint64(0); pc < uint64(len(code)); { ... }\<close>, from the loop head with the
  given \<open>bits\<close> and \<open>pc\<close>. \<open>code[pc]\<close> is read only under the loop condition, so that
  read is always in range.
\<close>

function codeBitmapLoop :: "byte list \<Rightarrow> BitVec \<Rightarrow> nat \<Rightarrow> BitVec option" where
  "codeBitmapLoop code bits pc =
     (if pc < length code
      then (case loop_body (code ! pc) bits pc of
              None \<Rightarrow> None
            | Some (bits', pc') \<Rightarrow> codeBitmapLoop code bits' pc')
      else Some bits)"
  by pat_completeness auto
termination
proof (relation "measure (\<lambda>(code, bits, pc). length code - pc)")
  show "wf (measure (\<lambda>(code, bits, pc). length code - pc))" by simp
next
  fix code :: "byte list" and bits :: BitVec and pc x2 x y
  assume "pc < length code" "loop_body (code ! pc) bits pc = Some x2" "(x, y) = x2"
  then have "pc < y" by (auto dest: loop_body_pc_less)
  with \<open>pc < length code\<close>
  show "((code, x, y), (code, bits, pc)) \<in> measure (\<lambda>(code, bits, pc). length code - pc)"
    by simp
qed

declare codeBitmapLoop.simps [simp del]

definition codeBitmapInternal :: "byte list \<Rightarrow> BitVec \<Rightarrow> BitVec option" where
  "codeBitmapInternal code bits = codeBitmapLoop code bits 0"

text \<open>\<open>make(BitVec, len(code)/8+1+4)\<close> is a fresh slice of zero bytes.\<close>

definition codeBitmap :: "byte list \<Rightarrow> BitVec option" where
  "codeBitmap code = codeBitmapInternal code (replicate (length code div 8 + 1 + 4) 0)"

text \<open>
  The state \<open>(bits, pc)\<close> at the head of the outer loop of \<open>codeBitmap code\<close> after \<open>n\<close>
  iterations: \<open>None\<close> when an iteration panicked or the loop had exited before.
\<close>

primrec loop_state :: "byte list \<Rightarrow> nat \<Rightarrow> (BitVec \<times> nat) option" where
  "loop_state code 0 = Some (replicate (length code div 8 + 1 + 4) 0, 0)"
| "loop_state code (Suc n) =
     (case loop_state code n of
        None \<Rightarrow> None
      | Some (bits, pc) \<Rightarrow>
          if pc < length code then loop_body (code ! pc) bits pc else None)"

section \<open>The specification's scan\<close>

text \<open>
  The push width in the spec's words: for an opcode of the push-literal family, "the
  number of immediate-data bytes that follow, in range 1..32, determined by the opcode's
  numeric offset from the first push opcode"; no data bytes follow any other opcode.
\<close>

definition push_width :: "byte \<Rightarrow> nat" where
  "push_width op = (if PUSH1 \<le> op \<and> op \<le> PUSH32 then unat op - unat PUSH1 + 1 else 0)"

text \<open>
  The naive reference scan over one boolean per code offset (\<open>True\<close> is data): it marks
  the \<open>w\<close> offsets after a push one at a time and advances by \<open>w + 1\<close>. An offset at or
  beyond \<open>len(code)\<close> is not part of this vector, and marking it changes nothing.
\<close>

fun naive_mark :: "bool list \<Rightarrow> nat \<Rightarrow> nat \<Rightarrow> bool list" where
  "naive_mark bs pos 0 = bs"
| "naive_mark bs pos (Suc w) = naive_mark (bs[pos := True]) (pos + 1) w"

function naive_scan :: "byte list \<Rightarrow> bool list \<Rightarrow> nat \<Rightarrow> bool list" where
  "naive_scan code bs pc =
     (if pc < length code
      then naive_scan code (naive_mark bs (pc + 1) (push_width (code ! pc)))
             (pc + push_width (code ! pc) + 1)
      else bs)"
  by pat_completeness auto
termination
  by (relation "measure (\<lambda>(code, bs, pc). length code - pc)") auto

declare naive_scan.simps [simp del]

definition naive_classify :: "byte list \<Rightarrow> bool list" where
  "naive_classify code = naive_scan code (replicate (length code) False) 0"

section \<open>The scan on a store of byte arrays\<close>

text \<open>
  A Go slice refers to a backing array, and two slices may share one. To say what
  \<open>codeBitmap\<close> does to memory, the arrays live in a store: a list of byte arrays, the
  address of an array being its index. \<open>make\<close> appends a zeroed array, so its address
  is new. The routines \<open>set1\<close>, \<open>setN\<close>, \<open>set8\<close> and \<open>set16\<close> index only their receiver
  \<open>bits\<close>, and an iteration of the outer loop reads \<open>code[pc]\<close> once, before it calls
  them; so an iteration is \<open>loop_body\<close> applied to the array at the address of \<open>bits\<close>,
  with the byte read from the array at the address of \<open>code\<close>. \<open>len(code)\<close> is part of
  the slice value and is passed as \<open>n\<close>.
\<close>

type_synonym store = "byte list list"

definition make :: "store \<Rightarrow> nat \<Rightarrow> store \<times> nat" where
  "make h n = (h @ [replicate n 0], length h)"

definition loop_body_st :: "store \<Rightarrow> nat \<Rightarrow> byte \<Rightarrow> nat \<Rightarrow> (store \<times> nat) option" where
  "loop_body_st h p op pc =
     (if p < length h
      then (case loop_body op (h ! p) pc of
              None \<Rightarrow> None
            | Some (bits', pc') \<Rightarrow> Some (h[p := bits'], pc'))
      else None)"

lemma loop_body_st_pc_less: "loop_body_st h p op pc = Some (h', pc') \<Longrightarrow> pc < pc'"
  by (auto simp add: loop_body_st_def split: if_splits option.splits dest: loop_body_pc_less)

function codeBitmapLoop_st :: "store \<Rightarrow> nat \<Rightarrow> nat \<Rightarrow> nat \<Rightarrow> nat \<Rightarrow> store option" where
  "codeBitmapLoop_st h a n p pc =
     (if pc < n
      then (if a < length h \<and> pc < length (h ! a)
            then (case loop_body_st h p (h ! a ! pc) pc of
                    None \<Rightarrow> None
                  | Some (h', pc') \<Rightarrow> codeBitmapLoop_st h' a n p pc')
            else None)
      else Some h)"
  by pat_completeness auto
termination
proof (relation "measure (\<lambda>(h, a, n, p, pc). n - pc)")
  show "wf (measure (\<lambda>(h, a, n, p, pc). n - pc))" by simp
next
  fix h :: store and a n p pc x2 x y
  assume "pc < n" "loop_body_st h p (h ! a ! pc) pc = Some x2" "(x, y) = x2"
  then have "pc < y" by (auto dest: loop_body_st_pc_less)
  with \<open>pc < n\<close>
  show "((x, a, n, p, y), (h, a, n, p, pc)) \<in> measure (\<lambda>(h, a, n, p, pc). n - pc)"
    by simp
qed

declare codeBitmapLoop_st.simps [simp del]

text \<open>
  \<open>codeBitmap\<close> on the store: \<open>a\<close> is the address of the array of \<open>code\<close>; the result
  is the new store and the address of the returned vector.
\<close>

definition codeBitmap_st :: "store \<Rightarrow> nat \<Rightarrow> (store \<times> nat) option" where
  "codeBitmap_st h a =
     (if a < length h
      then (let n = length (h ! a); (h1, p) = make h (n div 8 + 1 + 4)
            in map_option (\<lambda>h'. (h', p)) (codeBitmapLoop_st h1 a n p 0))
      else None)"

section \<open>Reading the bit vector\<close>

text \<open>
  \<open>bit_at bits j\<close> is bit \<open>j\<close> of the vector; \<open>zero_from bits p\<close> says that no bit at or
  after \<open>p\<close> is set; \<open>marks bits bits' lo hi\<close> says that \<open>bits'\<close> is \<open>bits\<close> with exactly the
  bits \<open>lo \<le> j < hi\<close> added.
\<close>

definition bit_at :: "BitVec \<Rightarrow> nat \<Rightarrow> bool" where
  "bit_at bits j = bit (bits ! (j div 8)) (j mod 8)"

definition zero_from :: "BitVec \<Rightarrow> nat \<Rightarrow> bool" where
  "zero_from bits p = (\<forall>j. p \<le> j \<and> j div 8 < length bits \<longrightarrow> \<not> bit_at bits j)"

definition marks :: "BitVec \<Rightarrow> BitVec \<Rightarrow> nat \<Rightarrow> nat \<Rightarrow> bool" where
  "marks bits bits' lo hi =
     (length bits' = length bits \<and>
      (\<forall>j. j div 8 < length bits \<longrightarrow> bit_at bits' j = (bit_at bits j \<or> (lo \<le> j \<and> j < hi))))"

section \<open>The marking routines\<close>

text \<open>
  Each routine, called at a position with no bit set at or beyond it and with enough
  bytes behind it, returns a vector and adds exactly the bits it is named for.
\<close>

lemma codeSegment_bit_at:
  "codeSegment bits pos = (if pos div 8 < length bits then Some (\<not> bit_at bits pos) else None)"
  apply (simp add: codeSegment_def bit_at_def)
  apply (simp add: bit_iff_odd_drop_bit and_one_eq mod_2_eq_odd)
  done

lemma ff_minus1: "(0xFF :: byte) = - 1"
  by simp

lemma bit_a8: "m < 8 \<Longrightarrow> bit (push_bit m (0xFF :: byte)) n \<longleftrightarrow> m \<le> n \<and> n < 8"
  by (auto simp add: bit_simps ff_minus1)

lemma bit_nota8: "m < 8 \<Longrightarrow> bit (NOT (push_bit m (0xFF :: byte))) n \<longleftrightarrow> n < m"
  by (auto simp add: bit_simps ff_minus1)

lemma bit_one8: "m < 8 \<Longrightarrow> bit (push_bit m (1 :: byte)) n \<longleftrightarrow> n = m"
  by (auto simp add: bit_simps)


lemma bit_flag_lo: "m < 8 \<Longrightarrow> k < 8 \<Longrightarrow> bit (ucast (push_bit m (mask k :: 16 word)) :: byte) n \<longleftrightarrow> m \<le> n \<and> n < 8 \<and> n < m + k"
  by (auto simp add: bit_ucast_iff bit_push_bit_iff bit_mask_iff)

lemma bit_flag_hi: "m < 8 \<Longrightarrow> k < 8 \<Longrightarrow> bit (ucast (drop_bit 8 (push_bit m (mask k :: 16 word))) :: byte) n \<longleftrightarrow> n < 8 \<and> n + 8 < m + k"
  by (auto simp add: bit_ucast_iff bit_push_bit_iff bit_mask_iff bit_drop_bit_eq)

lemma marksI:
  assumes "length bits' = length bits"
    and "\<And>q r. q < length bits \<Longrightarrow> r < 8 \<Longrightarrow>
           bit (bits' ! q) r = (bit (bits ! q) r \<or> (lo \<le> 8 * q + r \<and> 8 * q + r < hi))"
  shows "marks bits bits' lo hi"
  unfolding marks_def bit_at_def
proof (intro conjI allI impI)
  show "length bits' = length bits" by fact
next
  fix j assume "j div 8 < length bits"
  then have "bit (bits' ! (j div 8)) (j mod 8) =
      (bit (bits ! (j div 8)) (j mod 8) \<or> (lo \<le> 8 * (j div 8) + j mod 8 \<and> 8 * (j div 8) + j mod 8 < hi))"
    by (rule assms(2)) simp
  then show "bit (bits' ! (j div 8)) (j mod 8) = (bit (bits ! (j div 8)) (j mod 8) \<or> lo \<le> j \<and> j < hi)"
    by simp
qed

lemma zero_fromD:
  "zero_from bits p \<Longrightarrow> p \<le> 8 * q + r \<Longrightarrow> q < length bits \<Longrightarrow> r < 8 \<Longrightarrow> \<not> bit (bits ! q) r"
  unfolding zero_from_def bit_at_def
  by (drule spec [of _ "8 * q + r"]) simp

lemma set16_marks_aux:
  assumes "M < 8" "Q + 2 < length bits" "zero_from bits (8 * Q + M)"
  shows "\<exists>bits'. set16 bits (8 * Q + M) = Some bits' \<and> marks bits bits' (8 * Q + M) (8 * Q + M + 16)"
proof -
  have dm: "(8 * Q + M) div 8 = Q" "(8 * Q + M) mod 8 = M"
    using assms(1) by simp_all
  let ?a = "push_bit M (0xFF :: byte)"
  let ?bits' = "bits[Q := bits ! Q OR ?a, Q + 1 := 0xFF, Q + 2 := NOT ?a]"
  have run: "set16 bits (8 * Q + M) = Some ?bits'"
    using assms(1,2) by (simp add: set16_def or_store_def store_def Let_def)
  have "marks bits ?bits' (8 * Q + M) (8 * Q + M + 16)"
  proof (rule marksI)
    show "length ?bits' = length bits" by simp
  next
    fix q r assume q: "q < length bits" and r: "r < (8::nat)"
    have z: "8 * Q + M \<le> 8 * q + r \<Longrightarrow> \<not> bit (bits ! q) r"
      using zero_fromD [OF assms(3) _ q r] by simp
    consider "q = Q" | "q = Q + 1" | "q = Q + 2" | "q < Q" | "Q + 2 < q" by linarith
    then show "bit (?bits' ! q) r =
        (bit (bits ! q) r \<or> (8 * Q + M \<le> 8 * q + r \<and> 8 * q + r < 8 * Q + M + 16))"
    proof cases
      case 1 then show ?thesis using assms(1,2) r
        by (simp add: bit_or_iff bit_a8)
    next
      case 2 then show ?thesis using assms(1,2) r
        by (simp add: ff_minus1)
    next
      case 3 then show ?thesis using assms(1,2) r z
        by (simp add: bit_nota8)
    next
      case 4 then show ?thesis using assms(1,2) r by simp
    next
      case 5 then show ?thesis using assms(1,2) r by simp
    qed
  qed
  with run show ?thesis by blast
qed


lemma set8_marks_aux:
  assumes "M < 8" "Q + 1 < length bits" "zero_from bits (8 * Q + M)"
  shows "\<exists>bits'. set8 bits (8 * Q + M) = Some bits' \<and> marks bits bits' (8 * Q + M) (8 * Q + M + 8)"
proof -
  let ?a = "push_bit M (0xFF :: byte)"
  let ?bits' = "bits[Q := bits ! Q OR ?a, Q + 1 := NOT ?a]"
  have run: "set8 bits (8 * Q + M) = Some ?bits'"
    using assms(1,2) by (simp add: set8_def or_store_def store_def Let_def)
  have "marks bits ?bits' (8 * Q + M) (8 * Q + M + 8)"
  proof (rule marksI)
    show "length ?bits' = length bits" by simp
  next
    fix q r assume q: "q < length bits" and r: "r < (8::nat)"
    have z: "8 * Q + M \<le> 8 * q + r \<Longrightarrow> \<not> bit (bits ! q) r"
      using zero_fromD [OF assms(3) _ q r] by simp
    consider "q = Q" | "q = Q + 1" | "q < Q" | "Q + 1 < q" by linarith
    then show "bit (?bits' ! q) r =
        (bit (bits ! q) r \<or> (8 * Q + M \<le> 8 * q + r \<and> 8 * q + r < 8 * Q + M + 8))"
    proof cases
      case 1 then show ?thesis using assms(1,2) r
        by (simp add: bit_or_iff bit_a8)
    next
      case 2 then show ?thesis using assms(1,2) r z
        by (simp add: bit_nota8)
    next
      case 3 then show ?thesis using assms(1,2) r by simp
    next
      case 4 then show ?thesis using assms(1,2) r by simp
    qed
  qed
  with run show ?thesis by blast
qed

lemma set1_marks_aux:
  assumes "M < 8" "Q < length bits"
  shows "\<exists>bits'. set1 bits (8 * Q + M) = Some bits' \<and> marks bits bits' (8 * Q + M) (8 * Q + M + 1)"
proof -
  let ?bits' = "bits[Q := bits ! Q OR push_bit M 1]"
  have run: "set1 bits (8 * Q + M) = Some ?bits'"
    using assms by (simp add: set1_def or_store_def)
  have "marks bits ?bits' (8 * Q + M) (8 * Q + M + 1)"
  proof (rule marksI)
    show "length ?bits' = length bits" by simp
  next
    fix q r assume q: "q < length bits" and r: "r < (8::nat)"
    show "bit (?bits' ! q) r =
        (bit (bits ! q) r \<or> (8 * Q + M \<le> 8 * q + r \<and> 8 * q + r < 8 * Q + M + 1))"
    proof (cases "q = Q")
      case True then show ?thesis using assms r
        by (auto simp add: bit_simps)
    next
      case False then show ?thesis using assms r by auto
    qed
  qed
  with run show ?thesis by blast
qed

lemma setN_marks_aux:
  assumes "M < 8" "k < 8" "Q < length bits"
    and "(ucast (drop_bit 8 (push_bit M (mask k :: 16 word))) :: byte) \<noteq> 0 \<longrightarrow> Q + 1 < length bits"
    and "zero_from bits (8 * Q + M)"
  shows "\<exists>bits'. setN bits (mask k) (8 * Q + M) = Some bits' \<and> marks bits bits' (8 * Q + M) (8 * Q + M + k)"
proof -
  let ?a = "push_bit M (mask k :: 16 word)"
  let ?lo = "ucast ?a :: byte"
  let ?b = "ucast (drop_bit 8 ?a) :: byte"
  let ?bits1 = "bits[Q := bits ! Q OR ?lo]"
  let ?bits' = "if ?b \<noteq> 0 then ?bits1[Q + 1 := ?b] else ?bits1"
  have run: "setN bits (mask k) (8 * Q + M) = Some ?bits'"
    using assms(1,3,4) by (simp add: setN_def or_store_def store_def Let_def)
  have "marks bits ?bits' (8 * Q + M) (8 * Q + M + k)"
  proof (rule marksI)
    show "length ?bits' = length bits" by simp
  next
    fix q r assume q: "q < length bits" and r: "r < (8::nat)"
    have z: "8 * Q + M \<le> 8 * q + r \<Longrightarrow> \<not> bit (bits ! q) r"
      using zero_fromD [OF assms(5) _ q r] by simp
    have hi: "bit ?b r \<longleftrightarrow> 8 + r < M + k"
      using bit_flag_hi [OF assms(1,2), of r] r by (simp add: add.commute)
    have lo: "bit ?lo r \<longleftrightarrow> M \<le> r \<and> r < M + k"
      using bit_flag_lo [OF assms(1,2), of r] r by simp
    consider "q = Q" | "q = Q + 1" | "q < Q" | "Q + 1 < q" by linarith
    then show "bit (?bits' ! q) r =
        (bit (bits ! q) r \<or> (8 * Q + M \<le> 8 * q + r \<and> 8 * q + r < 8 * Q + M + k))"
    proof cases
      case 1 then show ?thesis using assms(1,2,3) r lo
        by (auto simp add: bit_or_iff)
    next
      case 2
      show ?thesis
      proof (cases "?b = 0")
        case True
        with hi have "\<not> 8 + r < M + k" by simp
        with True 2 z assms(1,2) show ?thesis by simp
      next
        case False
        with 2 z hi assms(1,2,3) q show ?thesis by simp
      qed
    next
      case 3 then show ?thesis using assms(1,2,3) r by simp
    next
      case 4 then show ?thesis using assms(1,2,3) r by simp
    qed
  qed
  with run show ?thesis by blast
qed


lemma set16_marks:
  assumes "pos div 8 + 2 < length bits" "zero_from bits pos"
  shows "\<exists>bits'. set16 bits pos = Some bits' \<and> marks bits bits' pos (pos + 16)"
  using set16_marks_aux [of "pos mod 8" "pos div 8" bits] assms by simp

lemma set8_marks:
  assumes "pos div 8 + 1 < length bits" "zero_from bits pos"
  shows "\<exists>bits'. set8 bits pos = Some bits' \<and> marks bits bits' pos (pos + 8)"
  using set8_marks_aux [of "pos mod 8" "pos div 8" bits] assms by simp

lemma set1_marks:
  assumes "pos div 8 < length bits"
  shows "\<exists>bits'. set1 bits pos = Some bits' \<and> marks bits bits' pos (pos + 1)"
  using set1_marks_aux [of "pos mod 8" "pos div 8" bits] assms by simp

lemma setN_marks:
  assumes "k < 8" "pos div 8 + 1 < length bits" "zero_from bits pos"
  shows "\<exists>bits'. setN bits (mask k) pos = Some bits' \<and> marks bits bits' pos (pos + k)"
  using setN_marks_aux [of "pos mod 8" k "pos div 8" bits] assms by simp

lemma setN_marks_result:
  assumes "k < 8" "setN bits (mask k) pos = Some bits'" "zero_from bits pos"
  shows "marks bits bits' pos (pos + k)"
proof -
  let ?b = "ucast (drop_bit 8 (push_bit (pos mod 8) (mask k :: 16 word))) :: byte"
  from assms(2) have 1: "pos div 8 < length bits"
    by (auto simp add: setN_def or_store_def Let_def split: if_splits)
  from assms(2) have 2: "?b \<noteq> 0 \<longrightarrow> pos div 8 + 1 < length bits"
    by (auto simp add: setN_def or_store_def store_def Let_def split: if_splits)
  from setN_marks_aux [of "pos mod 8" k "pos div 8" bits] assms(1,3) 1 2 assms(2)
  show ?thesis by simp
qed

lemma set8_marks_result:
  assumes "set8 bits pos = Some bits'" "zero_from bits pos"
  shows "marks bits bits' pos (pos + 8)"
proof -
  from assms(1) have "pos div 8 + 1 < length bits"
    by (auto simp add: set8_def or_store_def store_def Let_def split: if_splits)
  from set8_marks [OF this assms(2)] assms(1) show ?thesis by simp
qed

lemma set16_marks_result:
  assumes "set16 bits pos = Some bits'" "zero_from bits pos"
  shows "marks bits bits' pos (pos + 16)"
proof -
  from assms(1) have "pos div 8 + 2 < length bits"
    by (auto simp add: set16_def or_store_def store_def Let_def split: if_splits)
  from set16_marks [OF this assms(2)] assms(1) show ?thesis by simp
qed

lemma marks_refl: "marks bits bits lo lo"
  by (auto simp add: marks_def)

lemma marks_length: "marks bits bits' lo hi \<Longrightarrow> length bits' = length bits"
  by (simp add: marks_def)

lemma marks_trans:
  assumes "marks b b1 lo mid" "marks b1 b2 mid hi" "lo \<le> mid" "mid \<le> hi"
  shows "marks b b2 lo hi"
  using assms unfolding marks_def by auto

lemma marks_zero_from:
  assumes "zero_from b lo" "marks b b' lo hi" "lo \<le> hi"
  shows "zero_from b' hi"
  using assms unfolding marks_def zero_from_def by auto

lemma masks:
  "set2BitsMask = mask 2" "set3BitsMask = mask 3" "set4BitsMask = mask 4"
  "set5BitsMask = mask 5" "set6BitsMask = mask 6" "set7BitsMask = mask 7"
  by (simp_all add: set2BitsMask_def set3BitsMask_def set4BitsMask_def set5BitsMask_def
      set6BitsMask_def set7BitsMask_def mask_eq_exp_minus_1)

lemma switch_numbits_marks:
  assumes "k < 8" "pc div 8 + 1 < length bits" "zero_from bits pc"
  shows "\<exists>bits'. switch_numbits bits pc k = Some (bits', pc + k) \<and> marks bits bits' pc (pc + k)"
proof -
  consider "k = 0" | "k = 1" | "2 \<le> k" by linarith
  then show ?thesis
  proof cases
    case 1 then show ?thesis by (simp add: switch_numbits_def marks_refl)
  next
    case 2
    from set1_marks [of pc bits] assms(2) obtain bits'
      where "set1 bits pc = Some bits'" "marks bits bits' pc (pc + 1)" by auto
    with 2 show ?thesis by (simp add: switch_numbits_def)
  next
    case 3
    from setN_marks [OF assms] obtain bits'
      where *: "setN bits (mask k) pc = Some bits'" "marks bits bits' pc (pc + k)" by auto
    from 3 assms(1) have "k = 2 \<or> k = 3 \<or> k = 4 \<or> k = 5 \<or> k = 6 \<or> k = 7" by linarith
    with * show ?thesis
      by (auto simp add: switch_numbits_def masks)
  qed
qed

lemma loop16_marks:
  "zero_from bits pc \<Longrightarrow> (pc + 16 * (n div 16)) div 8 < length bits \<Longrightarrow>
   \<exists>bits'. loop16 bits pc n = Some (bits', pc + 16 * (n div 16), n mod 16) \<and>
           marks bits bits' pc (pc + 16 * (n div 16))"
proof (induction bits pc n rule: loop16.induct)
  case (1 bits pc n)
  show ?case
  proof (cases "16 \<le> n")
    case False
    then show ?thesis by (subst loop16.simps) (simp add: marks_refl)
  next
    case True
    then have d: "n div 16 = Suc ((n - 16) div 16)" and m: "(n - 16) mod 16 = n mod 16"
      by (simp_all add: le_div_geq le_mod_geq)
    from "1.prems"(2) d have len: "pc div 8 + 2 < length bits" by simp
    from set16_marks [OF len "1.prems"(1)] obtain b1
      where s: "set16 bits pc = Some b1" and m1: "marks bits b1 pc (pc + 16)" by auto
    have z1: "zero_from b1 (pc + 16)" by (rule marks_zero_from [OF "1.prems"(1) m1]) simp
    have l1: "(pc + 16 + 16 * ((n - 16) div 16)) div 8 < length b1"
      using "1.prems"(2) d marks_length [OF m1] by simp
    from "1.IH" [OF True s z1 l1] obtain b2
      where r: "loop16 b1 (pc + 16) (n - 16) = Some (b2, pc + 16 + 16 * ((n - 16) div 16), (n - 16) mod 16)"
        and m2: "marks b1 b2 (pc + 16) (pc + 16 + 16 * ((n - 16) div 16))" by auto
    have e: "pc + 16 + 16 * ((n - 16) div 16) = pc + 16 * (n div 16)" using d by simp
    have "marks bits b2 pc (pc + 16 * (n div 16))"
      using marks_trans [OF m1 m2] e by simp
    moreover have "loop16 bits pc n = Some (b2, pc + 16 * (n div 16), n mod 16)"
      using True s r e m by (subst loop16.simps) simp
    ultimately show ?thesis by blast
  qed
qed


lemma loop8_marks:
  "zero_from bits pc \<Longrightarrow> (pc + 8 * (n div 8)) div 8 < length bits \<Longrightarrow>
   \<exists>bits'. loop8 bits pc n = Some (bits', pc + 8 * (n div 8), n mod 8) \<and>
           marks bits bits' pc (pc + 8 * (n div 8))"
proof (induction bits pc n rule: loop8.induct)
  case (1 bits pc n)
  show ?case
  proof (cases "8 \<le> n")
    case False
    then show ?thesis by (subst loop8.simps) (simp add: marks_refl)
  next
    case True
    then have d: "n div 8 = Suc ((n - 8) div 8)" and m: "(n - 8) mod 8 = n mod 8"
      by (simp_all add: le_div_geq le_mod_geq)
    from "1.prems"(2) d have len: "pc div 8 + 1 < length bits" by simp
    from set8_marks [OF len "1.prems"(1)] obtain b1
      where s: "set8 bits pc = Some b1" and m1: "marks bits b1 pc (pc + 8)" by auto
    have z1: "zero_from b1 (pc + 8)" by (rule marks_zero_from [OF "1.prems"(1) m1]) simp
    have l1: "(pc + 8 + 8 * ((n - 8) div 8)) div 8 < length b1"
      using "1.prems"(2) d marks_length [OF m1] by simp
    from "1.IH" [OF True s z1 l1] obtain b2
      where r: "loop8 b1 (pc + 8) (n - 8) = Some (b2, pc + 8 + 8 * ((n - 8) div 8), (n - 8) mod 8)"
        and m2: "marks b1 b2 (pc + 8) (pc + 8 + 8 * ((n - 8) div 8))" by auto
    have e: "pc + 8 + 8 * ((n - 8) div 8) = pc + 8 * (n div 8)" using d by simp
    have "marks bits b2 pc (pc + 8 * (n div 8))"
      using marks_trans [OF m1 m2] e by simp
    moreover have "loop8 bits pc n = Some (b2, pc + 8 * (n div 8), n mod 8)"
      using True s r e m by (subst loop8.simps) simp
    ultimately show ?thesis by blast
  qed
qed

lemma split32:
  fixes n :: nat
  defines "a \<equiv> n div 16" and "b \<equiv> n mod 16 div 8" and "c \<equiv> n mod 8"
  assumes "n \<le> 32"
  shows "n = 16 * a + 8 * b + c" "c < 8" "a = 2 \<and> b = 0 \<and> c = 0 \<or> a \<le> 1 \<and> b \<le> 1" "n mod 16 mod 8 = c"
proof -
  have mm: "n mod 16 mod 8 = n mod 8" by (simp add: mod_mod_cancel)
  have 1: "n = 16 * a + n mod 16" unfolding a_def by simp
  have 2: "n mod 16 = 8 * b + c" unfolding b_def c_def mm [symmetric] by simp
  show "n = 16 * a + 8 * b + c" using 1 2 by simp
  show "c < 8" unfolding c_def by simp
  show "n mod 16 mod 8 = c" using mm c_def by simp
  have "n mod 16 < 16" by simp
  with 2 have b: "b \<le> 1" by linarith
  from 1 2 assms(4) b \<open>c < 8\<close> show "a = 2 \<and> b = 0 \<and> c = 0 \<or> a \<le> 1 \<and> b \<le> 1" by linarith
qed

lemma div8_add16: "(pc + 16 * a) div 8 = pc div 8 + 2 * (a::nat)"
  by presburger

lemma div8_add16_8: "(pc + 16 * a + 8 * b) div 8 = pc div 8 + 2 * (a::nat) + b"
  by presburger


lemma loop16_small: "n < 16 \<Longrightarrow> loop16 bits pc n = Some (bits, pc, n)"
  by (subst loop16.simps) simp

lemma loop8_small: "n < 8 \<Longrightarrow> loop8 bits pc n = Some (bits, pc, n)"
  by (subst loop8.simps) simp

lemma mark_push_marks:
  assumes n: "n \<le> 32" and len: "pc div 8 + 4 < length bits" and z: "zero_from bits pc"
  shows "\<exists>bits'. mark_push bits pc n = Some (bits', pc + n) \<and> marks bits bits' pc (pc + n)"
proof -
  define a where "a = n div 16"
  define b where "b = n mod 16 div 8"
  define c where "c = n mod 8"
  note s = split32 [OF n, folded a_def b_def c_def]
  define p1 where "p1 = pc + 16 * a"
  define p2 where "p2 = p1 + 8 * b"
  have p2: "p2 + c = pc + n" "pc \<le> p1" "p1 \<le> p2"
    unfolding p2_def p1_def using s(1) by simp_all
  have d1: "p1 div 8 = pc div 8 + 2 * a" unfolding p1_def by (rule div8_add16)
  have d2: "p2 div 8 = pc div 8 + 2 * a + b" unfolding p2_def p1_def by (rule div8_add16_8)
  have l1: "p1 div 8 < length bits" using s(3) len d1 by linarith
  have l2: "p2 div 8 < length bits" using s(3) len d2 by linarith
  have l3: "c \<noteq> 0 \<Longrightarrow> p2 div 8 + 1 < length bits" using s(3) len d2 by linarith
  from loop16_marks [OF z, of n] l1 obtain b1
    where r1: "loop16 bits pc n = Some (b1, p1, n mod 16)" and m1: "marks bits b1 pc p1"
    unfolding p1_def a_def by auto
  have z1: "zero_from b1 p1" by (rule marks_zero_from [OF z m1 p2(2)])
  have "(p1 + 8 * (n mod 16 div 8)) div 8 < length b1"
    using l2 marks_length [OF m1] unfolding p2_def b_def by simp
  from loop8_marks [OF z1 this] obtain b2
    where r2: "loop8 b1 p1 (n mod 16) = Some (b2, p2, c)" and m2: "marks b1 b2 p1 p2"
    unfolding p2_def b_def s(4) by auto
  have m12: "marks bits b2 pc p2" by (rule marks_trans [OF m1 m2 p2(2,3)])
  have z2: "zero_from b2 p2" by (rule marks_zero_from [OF z m12]) (use p2 in simp)
  have sw: "\<exists>b3. switch_numbits b2 p2 c = Some (b3, p2 + c) \<and> marks b2 b3 p2 (p2 + c)"
  proof (cases "c = 0")
    case True
    then show ?thesis by (simp add: switch_numbits_def marks_refl)
  next
    case False
    from l3 [OF False] marks_length [OF m12] have "p2 div 8 + 1 < length b2" by simp
    from switch_numbits_marks [OF s(2) this z2] show ?thesis .
  qed
  then obtain b3 where r3: "switch_numbits b2 p2 c = Some (b3, pc + n)"
    and m3: "marks b2 b3 p2 (pc + n)" using p2(1) by auto
  have m: "marks bits b3 pc (pc + n)"
    by (rule marks_trans [OF m12 m3]) (use p2 in simp_all)
  have "mark_push bits pc n = Some (b3, pc + n)"
  proof (cases "8 \<le> n")
    case True
    then show ?thesis using r1 r2 r3 by (simp add: mark_push_def)
  next
    case False
    then have "a = 0" "b = 0" "c = n" unfolding a_def b_def c_def by simp_all
    then have "p1 = pc" "p2 = pc" unfolding p1_def p2_def by simp_all
    with r1 r2 have "b1 = bits" "b2 = bits" using False
      by (simp_all add: loop16_small loop8_small)
    with r3 False \<open>c = n\<close> \<open>p2 = pc\<close> show ?thesis by (simp add: mark_push_def)
  qed
  with m show ?thesis by blast
qed

section \<open>The push test\<close>

text \<open>
  The signed comparison \<open>int8(op) < int8(PUSH1)\<close> fails exactly for the bytes from
  \<open>PUSH1\<close> to \<open>PUSH32\<close>, and for these \<open>op - PUSH1 + 1\<close> does not wrap around.
\<close>

lemma centre_mod:
  assumes "0 \<le> k" "k < 256"
  shows "(k + 128) mod 256 - 128 = (if k < 128 then k else k - (256::int))"
proof (cases "k < 128")
  case True
  with assms have "(k + 128) mod 256 = k + 128" by simp
  with True show ?thesis by simp
next
  case False
  have "k + 128 = (k - 128) + 256" by simp
  then have "(k + 128) mod 256 = ((k - 128) + 256) mod 256" by (rule arg_cong)
  also have "\<dots> = (k - 128) mod 256" by (rule mod_add_self2)
  also have "\<dots> = k - 128" using False assms by simp
  finally show ?thesis using False by simp
qed

lemma sint_byte: "sint (op :: byte) = (if uint op < 128 then uint op else uint op - 256)"
proof -
  have 1: "sint op = (uint op + 128) mod 256 - 128"
    by (simp add: sint_uint signed_take_bit_eq_take_bit_shift take_bit_eq_mod)
  have 2: "0 \<le> uint op" "uint op < 256"
    using uint_lt2p [of op] by simp_all
  show ?thesis unfolding 1 by (rule centre_mod [OF 2])
qed

lemma is_push_iff: "\<not> sint op < sint PUSH1 \<longleftrightarrow> PUSH1 \<le> op \<and> op \<le> PUSH32"
proof -
  have "uint op < 256" using uint_lt2p [of op] by simp
  then show ?thesis
    unfolding PUSH1_def PUSH32_def
    by (auto simp add: word_le_def sint_byte)
qed

lemma numbits_eq: "PUSH1 \<le> op \<Longrightarrow> op \<le> PUSH32 \<Longrightarrow> unat (op - PUSH1 + 1) = unat op - 95"
proof -
  assume a: "PUSH1 \<le> op" "op \<le> PUSH32"
  then have r: "96 \<le> unat op" "unat op \<le> 127"
    by (simp_all add: PUSH1_def PUSH32_def word_le_nat_alt)
  have 1: "unat (op - PUSH1) = unat op - 96"
    using unat_sub [OF a(1)] by (simp add: PUSH1_def)
  have "unat (op - PUSH1) + unat (1 :: byte) < 2 ^ LENGTH(8)"
    using 1 r by simp
  then have "unat (op - PUSH1 + 1) = unat (op - PUSH1) + unat (1 :: byte)"
    by (simp only: unat_add_lem)
  with 1 r show ?thesis by simp
qed

section \<open>One iteration and the invariant of the outer loop\<close>

text \<open>
  An iteration entered with enough storage behind \<open>pc\<close> and no bit set beyond \<open>pc\<close>
  completes, adds exactly the bits of the push span and advances \<open>pc\<close> past it. Every
  state the scan of \<open>codeBitmap\<close> reaches keeps the allocated length, has no bit set at
  or beyond \<open>pc\<close>, and has \<open>pc\<close> at least the number of iterations made.
\<close>

lemma push_width_le: "push_width op \<le> 32"
  by (auto simp add: push_width_def PUSH1_def PUSH32_def word_le_nat_alt)

lemma push_width_pos: "PUSH1 \<le> op \<Longrightarrow> op \<le> PUSH32 \<Longrightarrow> 1 \<le> push_width op"
  by (simp add: push_width_def)

lemma numbits_push_width:
  assumes "PUSH1 \<le> op" "op \<le> PUSH32"
  shows "unat (op - PUSH1 + 1) = push_width op"
proof -
  have u: "unat PUSH1 = 96" by (simp add: PUSH1_def)
  from assms(1) have "96 \<le> unat op" unfolding word_le_nat_alt u .
  then have "unat op - 95 = unat op - 96 + 1" by simp
  with numbits_eq [OF assms] assms u show ?thesis by (simp only: push_width_def simp_thms if_True)
qed

lemma loop_body_not_push:
  assumes "\<not> (PUSH1 \<le> op \<and> op \<le> PUSH32)"
  shows "loop_body op bits pc = Some (bits, pc + 1)"
proof -
  from assms have "sint op < sint PUSH1" unfolding is_push_iff [symmetric] by simp
  then show ?thesis by (simp add: loop_body_def)
qed

lemma loop_body_push:
  assumes "PUSH1 \<le> op" "op \<le> PUSH32"
  shows "loop_body op bits pc = mark_push bits (pc + 1) (push_width op)"
proof -
  from assms have "\<not> sint op < sint PUSH1" unfolding is_push_iff by simp
  then show ?thesis by (simp add: loop_body_def numbits_push_width [OF assms])
qed

lemma zero_from_mono: "zero_from bits p \<Longrightarrow> p \<le> q \<Longrightarrow> zero_from bits q"
  by (auto simp add: zero_from_def)

lemma loop_body_marks:
  assumes len: "(pc + 1) div 8 + 4 < length bits" and z: "zero_from bits (pc + 1)"
  shows "\<exists>bits'. loop_body op bits pc = Some (bits', pc + push_width op + 1) \<and>
           marks bits bits' (pc + 1) (pc + 1 + push_width op)"
proof (cases "PUSH1 \<le> op \<and> op \<le> PUSH32")
  case False
  then have "push_width op = 0" by (simp add: push_width_def)
  with loop_body_not_push [OF False] show ?thesis by (simp add: marks_refl)
next
  case True
  from mark_push_marks [OF push_width_le len z, of op] True show ?thesis
    by (simp add: loop_body_push add.commute add.left_commute)
qed

lemma div8_bound: "pc < n \<Longrightarrow> (pc + 1) div 8 + 4 < n div 8 + 1 + (4::nat)"
proof -
  assume "pc < n"
  then have "pc + 1 \<le> n" by simp
  then have "(pc + 1) div 8 \<le> n div 8" by (rule div_le_mono)
  then show ?thesis by simp
qed

lemma zero_from_replicate: "zero_from (replicate k 0) p"
  by (simp add: zero_from_def bit_at_def)

lemma loop_state_inv:
  "loop_state code n = Some (bits, pc) \<Longrightarrow>
   length bits = length code div 8 + 1 + 4 \<and> zero_from bits pc \<and> n \<le> pc"
proof (induction n arbitrary: bits pc)
  case 0
  then show ?case by (auto simp add: zero_from_replicate)
next
  case (Suc n)
  from Suc.prems obtain b0 p0 where s0: "loop_state code n = Some (b0, p0)"
    and lt: "p0 < length code" and lb: "loop_body (code ! p0) b0 p0 = Some (bits, pc)"
    by (auto split: option.splits if_splits)
  from Suc.IH [OF s0] have l0: "length b0 = length code div 8 + 1 + 4"
    and z0: "zero_from b0 p0" and n0: "n \<le> p0" by simp_all
  have len: "(p0 + 1) div 8 + 4 < length b0" using div8_bound [OF lt] l0 by simp
  have z1: "zero_from b0 (p0 + 1)" by (rule zero_from_mono [OF z0]) simp
  from loop_body_marks [OF len z1, of "code ! p0"] lb
  have pc: "pc = p0 + push_width (code ! p0) + 1"
    and m: "marks b0 bits (p0 + 1) (p0 + 1 + push_width (code ! p0))" by auto
  have "zero_from bits (p0 + 1 + push_width (code ! p0))"
    by (rule marks_zero_from [OF z1 m]) simp
  with pc m l0 n0 show ?case by (simp add: marks_length add.commute add.left_commute)
qed

lemma loop_state_step:
  assumes "loop_state code n = Some (bits, pc)" "pc < length code"
  shows "\<exists>bits'. loop_state code (Suc n) = Some (bits', pc + push_width (code ! pc) + 1) \<and>
           marks bits bits' (pc + 1) (pc + 1 + push_width (code ! pc))"
proof -
  from loop_state_inv [OF assms(1)] have l0: "length bits = length code div 8 + 1 + 4"
    and z0: "zero_from bits pc" by simp_all
  have len: "(pc + 1) div 8 + 4 < length bits" using div8_bound [OF assms(2)] l0 by simp
  have z1: "zero_from bits (pc + 1)" by (rule zero_from_mono [OF z0]) simp
  from loop_body_marks [OF len z1, of "code ! pc"] assms show ?thesis by simp
qed

lemma loop_state_run:
  "loop_state code n = Some (bits, pc) \<Longrightarrow> codeBitmapLoop code bits pc = codeBitmap code"
proof (induction n arbitrary: bits pc)
  case 0
  then show ?case by (auto simp add: codeBitmap_def codeBitmapInternal_def)
next
  case (Suc n)
  from Suc.prems obtain b0 p0 where s0: "loop_state code n = Some (b0, p0)"
    and lt: "p0 < length code" and lb: "loop_body (code ! p0) b0 p0 = Some (bits, pc)"
    by (auto split: option.splits if_splits)
  have "codeBitmapLoop code b0 p0 = codeBitmapLoop code bits pc"
    using lt lb by (subst codeBitmapLoop.simps) simp
  with Suc.IH [OF s0] show ?case by simp
qed

text \<open>Run from a state satisfying the invariant.\<close>

lemma codeBitmapLoop_run:
  "length bits = length code div 8 + 1 + 4 \<Longrightarrow> zero_from bits pc \<Longrightarrow>
   \<exists>final. codeBitmapLoop code bits pc = Some final \<and> length final = length bits \<and>
     (\<forall>j. j \<le> pc \<and> j div 8 < length bits \<longrightarrow> bit_at final j = bit_at bits j) \<and>
     (\<forall>j. j div 8 < length bits \<and> bit_at bits j \<longrightarrow> bit_at final j)"
proof (induction code bits pc rule: codeBitmapLoop.induct)
  case (1 code bits pc)
  show ?case
  proof (cases "pc < length code")
    case False
    then show ?thesis by (subst codeBitmapLoop.simps) simp
  next
    case True
    have len: "(pc + 1) div 8 + 4 < length bits" using div8_bound [OF True] "1.prems"(1) by simp
    have z1: "zero_from bits (pc + 1)" by (rule zero_from_mono [OF "1.prems"(2)]) simp
    from loop_body_marks [OF len z1, of "code ! pc"] obtain bits'
      where lb: "loop_body (code ! pc) bits pc = Some (bits', pc + push_width (code ! pc) + 1)"
        and m: "marks bits bits' (pc + 1) (pc + 1 + push_width (code ! pc))" by auto
    let ?pc' = "pc + push_width (code ! pc) + 1"
    have z': "zero_from bits' ?pc'"
      using marks_zero_from [OF z1 m] by (simp add: add.commute add.left_commute)
    have l': "length bits' = length code div 8 + 1 + 4"
      using marks_length [OF m] "1.prems"(1) by simp
    from "1.IH" [OF True lb refl l' z'] obtain final
      where f: "codeBitmapLoop code bits' ?pc' = Some final" "length final = length bits'"
        and keep: "\<forall>j. j \<le> ?pc' \<and> j div 8 < length bits' \<longrightarrow> bit_at final j = bit_at bits' j"
        and mono: "\<forall>j. j div 8 < length bits' \<and> bit_at bits' j \<longrightarrow> bit_at final j" by auto
    have r: "codeBitmapLoop code bits pc = Some final"
      using True lb f(1) by (subst codeBitmapLoop.simps) simp
    have "\<forall>j. j \<le> pc \<and> j div 8 < length bits \<longrightarrow> bit_at final j = bit_at bits j"
      using keep m unfolding marks_def by auto
    moreover have "\<forall>j. j div 8 < length bits \<and> bit_at bits j \<longrightarrow> bit_at final j"
      using mono m unfolding marks_def by auto
    ultimately show ?thesis using r f(2) marks_length [OF m] by simp
  qed
qed

section \<open>Agreement with the reference scan\<close>

lemma naive_mark_length: "length (naive_mark bs pos w) = length bs"
  by (induction w arbitrary: bs pos) simp_all

lemma naive_mark_nth:
  "j < length bs \<Longrightarrow> naive_mark bs pos w ! j = (bs ! j \<or> (pos \<le> j \<and> j < pos + w))"
proof (induction w arbitrary: bs pos)
  case 0
  then show ?case by auto
next
  case (Suc w)
  from Suc.prems have "j < length (bs[pos := True])" by simp
  moreover have "bs[pos := True] ! j = (bs ! j \<or> j = pos)"
    using Suc.prems by (cases "j = pos") simp_all
  ultimately show ?case using Suc.IH [of "bs[pos := True]" "pos + 1"]
    by auto
qed

lemma codeBitmapLoop_refines:
  "length bits = length code div 8 + 1 + 4 \<Longrightarrow> zero_from bits pc \<Longrightarrow>
   length bs = length code \<Longrightarrow> (\<forall>j<length code. bit_at bits j = bs ! j) \<Longrightarrow>
   \<exists>final. codeBitmapLoop code bits pc = Some final \<and> length final = length bits \<and>
     (\<forall>j<length code. bit_at final j = naive_scan code bs pc ! j)"
proof (induction code bits pc arbitrary: bs rule: codeBitmapLoop.induct)
  case (1 code bits pc)
  show ?case
  proof (cases "pc < length code")
    case False
    then show ?thesis using "1.prems"(4)
      by (subst codeBitmapLoop.simps, subst naive_scan.simps) simp
  next
    case True
    let ?w = "push_width (code ! pc)"
    let ?pc' = "pc + ?w + 1"
    let ?bs' = "naive_mark bs (pc + 1) ?w"
    have len: "(pc + 1) div 8 + 4 < length bits" using div8_bound [OF True] "1.prems"(1) by simp
    have z1: "zero_from bits (pc + 1)" by (rule zero_from_mono [OF "1.prems"(2)]) simp
    from loop_body_marks [OF len z1, of "code ! pc"] obtain bits'
      where lb: "loop_body (code ! pc) bits pc = Some (bits', ?pc')"
        and m: "marks bits bits' (pc + 1) (pc + 1 + ?w)" by auto
    have z': "zero_from bits' ?pc'"
      using marks_zero_from [OF z1 m] by (simp add: add.commute add.left_commute)
    have l': "length bits' = length code div 8 + 1 + 4"
      using marks_length [OF m] "1.prems"(1) by simp
    have lbs: "length ?bs' = length code" using "1.prems"(3) by (simp add: naive_mark_length)
    have agree: "\<forall>j<length code. bit_at bits' j = ?bs' ! j"
    proof (intro allI impI)
      fix j assume j: "j < length code"
      then have "j div 8 < length bits" using "1.prems"(1) by (simp add: div_le_dividend less_Suc_eq_le trans_less_add1)
      with m have "bit_at bits' j = (bit_at bits j \<or> (pc + 1 \<le> j \<and> j < pc + 1 + ?w))"
        unfolding marks_def by simp
      with j "1.prems"(3,4) show "bit_at bits' j = ?bs' ! j"
        by (simp add: naive_mark_nth)
    qed
    from "1.IH" [OF True lb refl l' z' lbs agree] obtain final
      where f: "codeBitmapLoop code bits' ?pc' = Some final" "length final = length bits'"
        "\<forall>j<length code. bit_at final j = naive_scan code ?bs' ?pc' ! j" by auto
    have r: "codeBitmapLoop code bits pc = Some final"
      using True lb f(1) by (subst codeBitmapLoop.simps) simp
    have n: "naive_scan code bs pc = naive_scan code ?bs' ?pc'"
      using True by (subst naive_scan.simps) simp
    from r f(2,3) n marks_length [OF m] show ?thesis by simp
  qed
qed

lemma offset_in_storage: "pos < n \<Longrightarrow> pos div 8 < n div 8 + 1 + (4::nat)"
proof -
  assume "pos < n"
  then have "pos div 8 \<le> n div 8" by (simp add: div_le_mono)
  then show ?thesis by simp
qed

lemma codeBitmap_refines:
  "\<exists>bits. codeBitmap code = Some bits \<and> length bits = length code div 8 + 1 + 4 \<and>
     (\<forall>pos<length code. codeSegment bits pos = Some (\<not> naive_classify code ! pos))"
proof -
  let ?z = "replicate (length code div 8 + 1 + 4) (0::byte)"
  have a: "\<forall>j<length code. bit_at ?z j = replicate (length code) False ! j"
    using offset_in_storage by (simp add: bit_at_def)
  from codeBitmapLoop_refines [of ?z code 0 "replicate (length code) False"] a
  obtain final where f: "codeBitmapLoop code ?z 0 = Some final" "length final = length ?z"
    "\<forall>j<length code. bit_at final j = naive_scan code (replicate (length code) False) 0 ! j"
    by (auto simp add: zero_from_replicate)
  have "\<forall>pos<length code. codeSegment final pos = Some (\<not> naive_classify code ! pos)"
    using f(2,3) offset_in_storage by (simp add: codeSegment_bit_at naive_classify_def)
  with f(1,2) show ?thesis
    by (simp add: codeBitmap_def codeBitmapInternal_def)
qed

section \<open>Offset zero, the reference scan and the bounds of the storage\<close>

lemma codeBitmap_offset_zero: "\<exists>bits. codeBitmap code = Some bits \<and> codeSegment bits 0 = Some True"
proof -
  let ?z = "replicate (length code div 8 + 1 + 4) (0::byte)"
  from codeBitmapLoop_run [of ?z code 0] obtain final
    where f: "codeBitmapLoop code ?z 0 = Some final" "length final = length ?z"
      and keep: "\<forall>j. j \<le> 0 \<and> j div 8 < length ?z \<longrightarrow> bit_at final j = bit_at ?z j"
    by (auto simp add: zero_from_replicate)
  from keep have "\<not> bit_at final 0" by (simp add: bit_at_def)
  with f show ?thesis
    by (auto simp add: codeBitmap_def codeBitmapInternal_def codeSegment_bit_at)
qed

text \<open>
  C7. For every non-empty code the classification succeeds and offset 0 is an
  instruction start: \<open>codeSegment\<close> answers true at position 0 of the vector that
  \<open>codeBitmap\<close> returns.
\<close>

theorem C7_offset_zero_is_instruction_start:
  "code \<noteq> [] \<Longrightarrow> \<exists>bits. codeBitmap code = Some bits \<and> codeSegment bits 0 = Some True"
  by (rule codeBitmap_offset_zero)

theorem C7_offset_zero_witness:
  "[0x60, 0xFF, 0x5B :: byte] \<noteq> [] \<and>
   codeBitmap [0x60, 0xFF, 0x5B] = Some [2, 0, 0, 0, 0] \<and>
   codeSegment [2, 0, 0, 0, 0] 0 = Some True"
proof -
  have ne: "[0x60, 0xFF, 0x5B :: byte] \<noteq> []" by simp
  have v: "codeBitmap [0x60, 0xFF, 0x5B] = Some [2, 0, 0, 0, 0]" by code_simp
  from C7_offset_zero_is_instruction_start [OF ne] v
  have "codeSegment [2, 0, 0, 0, 0] 0 = Some True" by simp
  with ne v show ?thesis by simp
qed

text \<open>
  C1. The segmented marking of \<open>codeBitmap\<close> (\<open>set16\<close>, \<open>set8\<close>, \<open>setN\<close>, \<open>set1\<close>) agrees
  with the naive reference scan, which marks the \<open>w\<close> offsets \<open>pc+1 .. pc+w\<close> after each
  push of width \<open>w\<close> one at a time: \<open>codeBitmap\<close> returns a vector, and at every offset
  below \<open>len(code)\<close> its bit is set exactly when the reference marks the offset as data.
\<close>

theorem C1_codeBitmap_agrees_with_naive_scan:
  "\<exists>bits. codeBitmap code = Some bits \<and>
     (\<forall>pos<length code. codeSegment bits pos = Some (\<not> naive_classify code ! pos))"
  using codeBitmap_refines [of code] by blast

theorem C1_codeBitmap_agrees_witness:
  "codeBitmap [0x60, 0xFF, 0x5B] = Some [2, 0, 0, 0, 0] \<and>
   (1::nat) < length [0x60, 0xFF, 0x5B :: byte] \<and>
   naive_classify [0x60, 0xFF, 0x5B] ! 1 \<and>
   codeSegment [2, 0, 0, 0, 0] 1 = Some False"
proof -
  have v: "codeBitmap [0x60, 0xFF, 0x5B] = Some [2, 0, 0, 0, 0]" by code_simp
  have n: "naive_classify [0x60, 0xFF, 0x5B] ! 1" by code_simp
  have l: "(1::nat) < length [0x60, 0xFF, 0x5B :: byte]" by simp
  from C1_codeBitmap_agrees_with_naive_scan [of "[0x60, 0xFF, 0x5B]"] v
  have "\<forall>pos<length [0x60, 0xFF, 0x5B :: byte].
          codeSegment [2, 0, 0, 0, 0] pos = Some (\<not> naive_classify [0x60, 0xFF, 0x5B] ! pos)"
    by simp
  with l have "codeSegment [2, 0, 0, 0, 0] 1 = Some (\<not> naive_classify [0x60, 0xFF, 0x5B] ! 1)"
    by blast
  with v n l show ?thesis by simp
qed

text \<open>
  C2. For every code, \<open>codeBitmap\<close> returns a vector: no indexed access of the scan
  leaves the \<open>len(code)/8+1+4\<close> bytes it allocated (an access outside them is \<open>None\<close> in
  the model). Every iteration started from a state the scan reaches completes and keeps
  that length, and every offset below \<open>len(code)\<close> is classified as the reference scan
  classifies it. This covers a code ending in a push whose operands are missing.
\<close>

theorem C2_scan_stays_in_bounds:
  "\<exists>bits. codeBitmap code = Some bits \<and> length bits = length code div 8 + 1 + 4 \<and>
     (\<forall>pos<length code. codeSegment bits pos = Some (\<not> naive_classify code ! pos)) \<and>
     (\<forall>n b pc. loop_state code n = Some (b, pc) \<and> pc < length code \<longrightarrow>
        (\<exists>b' pc'. loop_body (code ! pc) b pc = Some (b', pc') \<and>
           length b' = length code div 8 + 1 + 4))"
proof -
  have "\<exists>b' pc'. loop_body (code ! pc) b pc = Some (b', pc') \<and>
           length b' = length code div 8 + 1 + 4"
    if "loop_state code n = Some (b, pc) \<and> pc < length code" for n b pc
  proof -
    from that loop_state_step [of code n b pc] obtain b'
      where s: "loop_state code (Suc n) = Some (b', pc + push_width (code ! pc) + 1)" by blast
    from loop_state_inv [OF s] have "length b' = length code div 8 + 1 + 4" by simp
    moreover from s that
    have "loop_body (code ! pc) b pc = Some (b', pc + push_width (code ! pc) + 1)" by simp
    ultimately show ?thesis by blast
  qed
  with codeBitmap_refines [of code] show ?thesis by blast
qed

theorem C2_scan_stays_in_bounds_witness:
  "codeBitmap [0x7F] = Some [254, 255, 255, 255, 1] \<and>
   length [254, 255, 255, 255, 1 :: byte] = length [0x7F :: byte] div 8 + 1 + 4 \<and>
   (0::nat) < length [0x7F :: byte] \<and>
   codeSegment [254, 255, 255, 255, 1] 0 = Some (\<not> naive_classify [0x7F] ! 0) \<and>
   loop_state [0x7F] 0 = Some ([0, 0, 0, 0, 0], 0) \<and>
   (\<exists>b' pc'. loop_body ([0x7F] ! 0) [0, 0, 0, 0, 0] 0 = Some (b', pc') \<and>
      length b' = length [0x7F :: byte] div 8 + 1 + 4)"
proof -
  have v: "codeBitmap [0x7F] = Some [254, 255, 255, 255, 1]" by code_simp
  have s: "loop_state [0x7F] 0 = Some ([0, 0, 0, 0, 0], 0)" by code_simp
  have l: "(0::nat) < length [0x7F :: byte]" by simp
  from C2_scan_stays_in_bounds [of "[0x7F]"] v
  have a: "length [254, 255, 255, 255, 1 :: byte] = length [0x7F :: byte] div 8 + 1 + 4"
    and b: "\<forall>pos<length [0x7F :: byte].
              codeSegment [254, 255, 255, 255, 1] pos = Some (\<not> naive_classify [0x7F] ! pos)"
    and c: "\<forall>n b pc. loop_state [0x7F] n = Some (b, pc) \<and> pc < length [0x7F :: byte] \<longrightarrow>
              (\<exists>b' pc'. loop_body ([0x7F] ! pc) b pc = Some (b', pc') \<and>
                 length b' = length [0x7F :: byte] div 8 + 1 + 4)"
    by simp_all
  from b l have b0: "codeSegment [254, 255, 255, 255, 1] 0 = Some (\<not> naive_classify [0x7F] ! 0)"
    by blast
  from c s l have c0: "\<exists>b' pc'. loop_body ([0x7F] ! 0) [0, 0, 0, 0, 0] 0 = Some (b', pc') \<and>
      length b' = length [0x7F :: byte] div 8 + 1 + 4" by blast
  from v a l b0 s c0 show ?thesis by blast
qed

section \<open>Termination\<close>

lemma loop_state_exit:
  "loop_state code n = Some (bits, pc) \<Longrightarrow> length code \<le> pc \<Longrightarrow>
   loop_state code (Suc n) = None \<and> codeBitmap code = Some bits"
proof -
  assume s: "loop_state code n = Some (bits, pc)" and e: "length code \<le> pc"
  have "codeBitmapLoop code bits pc = Some bits" using e by (subst codeBitmapLoop.simps) simp
  with loop_state_run [OF s] s e show ?thesis by simp
qed

lemma loop_state_progress:
  "(\<exists>n\<le>k. \<exists>bits pc. loop_state code n = Some (bits, pc) \<and> length code \<le> pc) \<or>
   (\<exists>bits pc. loop_state code k = Some (bits, pc) \<and> pc < length code)"
proof (induction k)
  case 0
  show ?case by (cases "0 < length code") auto
next
  case (Suc k)
  from Suc.IH show ?case
  proof
    assume "\<exists>n\<le>k. \<exists>bits pc. loop_state code n = Some (bits, pc) \<and> length code \<le> pc"
    then obtain n bits pc where "n \<le> k" "loop_state code n = Some (bits, pc)" "length code \<le> pc"
      by blast
    then have "n \<le> Suc k" by simp
    with \<open>loop_state code n = Some (bits, pc)\<close> \<open>length code \<le> pc\<close> show ?thesis by blast
  next
    assume "\<exists>bits pc. loop_state code k = Some (bits, pc) \<and> pc < length code"
    then obtain bits pc where s: "loop_state code k = Some (bits, pc)" and lt: "pc < length code"
      by blast
    from loop_state_step [OF s lt] obtain bits'
      where s': "loop_state code (Suc k) = Some (bits', pc + push_width (code ! pc) + 1)" by blast
    show ?thesis
    proof (cases "pc + push_width (code ! pc) + 1 < length code")
      case True
      with s' show ?thesis by blast
    next
      case False
      then have "length code \<le> pc + push_width (code ! pc) + 1" by simp
      with s' have "\<exists>n\<le>Suc k. \<exists>bits pc. loop_state code n = Some (bits, pc) \<and> length code \<le> pc"
        by blast
      then show ?thesis ..
    qed
  qed
qed

lemma loop_state_terminates:
  "\<exists>n\<le>length code. \<exists>bits pc. loop_state code n = Some (bits, pc) \<and> length code \<le> pc"
proof -
  from loop_state_progress [of "length code" code] show ?thesis
  proof
    assume "\<exists>bits pc. loop_state code (length code) = Some (bits, pc) \<and> pc < length code"
    then obtain bits pc where s: "loop_state code (length code) = Some (bits, pc)"
      and lt: "pc < length code" by blast
    from loop_state_inv [OF s] lt show ?thesis by simp
  qed
qed

text \<open>
  C10. The scan terminates. The outer loop is a total function (its termination is
  proved where \<open>codeBitmapLoop\<close> is defined) and \<open>codeBitmap\<close> returns a vector. An
  iteration entered at \<open>pc < len(code)\<close> completes and moves \<open>pc\<close> forward by exactly
  \<open>w + 1\<close> for a push of width \<open>w\<close> and by exactly 1 for any other byte; a state with
  \<open>pc >= len(code)\<close> has no further iteration and its vector is the result; and the loop
  reaches such a state after at most \<open>len(code)\<close> iterations.
\<close>

theorem C10_scan_terminates:
  "(\<forall>n bits pc. loop_state code n = Some (bits, pc) \<and> pc < length code \<longrightarrow>
      (\<exists>bits'. loop_state code (Suc n) =
                 Some (bits', pc + (if PUSH1 \<le> code ! pc \<and> code ! pc \<le> PUSH32
                                    then (unat (code ! pc) - unat PUSH1 + 1) + 1 else 1)))) \<and>
   (\<forall>n bits pc. loop_state code n = Some (bits, pc) \<and> length code \<le> pc \<longrightarrow>
      loop_state code (Suc n) = None \<and> codeBitmap code = Some bits) \<and>
   (\<exists>n\<le>length code. \<exists>bits pc.
      loop_state code n = Some (bits, pc) \<and> length code \<le> pc \<and> codeBitmap code = Some bits)"
proof (intro conjI allI impI)
  fix n bits pc
  assume a: "loop_state code n = Some (bits, pc) \<and> pc < length code"
  then obtain bits'
    where "loop_state code (Suc n) = Some (bits', pc + push_width (code ! pc) + 1)"
    using loop_state_step [of code n bits pc] by blast
  then have "loop_state code (Suc n) =
      Some (bits', pc + (if PUSH1 \<le> code ! pc \<and> code ! pc \<le> PUSH32
                         then (unat (code ! pc) - unat PUSH1 + 1) + 1 else 1))"
    by (simp add: push_width_def)
  then show "\<exists>bits'. loop_state code (Suc n) =
      Some (bits', pc + (if PUSH1 \<le> code ! pc \<and> code ! pc \<le> PUSH32
                         then (unat (code ! pc) - unat PUSH1 + 1) + 1 else 1))" ..
next
  fix n bits pc
  assume a: "loop_state code n = Some (bits, pc) \<and> length code \<le> pc"
  then show "loop_state code (Suc n) = None" using loop_state_exit [of code n bits pc] by blast
  from a show "codeBitmap code = Some bits" using loop_state_exit [of code n bits pc] by blast
next
  from loop_state_terminates [of code] obtain n bits pc
    where n: "n \<le> length code" and s: "loop_state code n = Some (bits, pc)"
      and e: "length code \<le> pc" by blast
  from loop_state_exit [OF s e] have "codeBitmap code = Some bits" by simp
  with n s e show "\<exists>n\<le>length code. \<exists>bits pc.
      loop_state code n = Some (bits, pc) \<and> length code \<le> pc \<and> codeBitmap code = Some bits"
    by blast
qed

theorem C10_scan_terminates_witness:
  "loop_state [0x60, 0xFF, 0x5B] 0 = Some ([0, 0, 0, 0, 0], 0) \<and>
   (0::nat) < length [0x60, 0xFF, 0x5B :: byte] \<and>
   (\<exists>bits'. loop_state [0x60, 0xFF, 0x5B] (Suc 0) = Some (bits', 2)) \<and>
   loop_state [0x60, 0xFF, 0x5B] 2 = Some ([2, 0, 0, 0, 0], 3) \<and>
   length [0x60, 0xFF, 0x5B :: byte] \<le> 3 \<and>
   loop_state [0x60, 0xFF, 0x5B] (Suc 2) = None \<and>
   codeBitmap [0x60, 0xFF, 0x5B] = Some [2, 0, 0, 0, 0] \<and>
   (\<exists>n\<le>length [0x60, 0xFF, 0x5B :: byte]. \<exists>bits pc.
      loop_state [0x60, 0xFF, 0x5B] n = Some (bits, pc) \<and> length [0x60, 0xFF, 0x5B :: byte] \<le> pc)"
proof -
  let ?c = "[0x60, 0xFF, 0x5B] :: byte list"
  note t = C10_scan_terminates [of ?c]
  have s0: "loop_state ?c 0 = Some ([0, 0, 0, 0, 0], 0)" by code_simp
  have l0: "(0::nat) < length ?c" by simp
  have p: "PUSH1 \<le> ?c ! 0 \<and> ?c ! 0 \<le> PUSH32" by (simp add: PUSH1_def PUSH32_def)
  have w: "unat (?c ! 0) - unat PUSH1 + 1 + 1 = 2" by (simp add: PUSH1_def)
  from t s0 l0 have "\<exists>bits'. loop_state ?c (Suc 0) =
      Some (bits', 0 + (if PUSH1 \<le> ?c ! 0 \<and> ?c ! 0 \<le> PUSH32
                         then (unat (?c ! 0) - unat PUSH1 + 1) + 1 else 1))" by blast
  then have a: "\<exists>bits'. loop_state ?c (Suc 0) = Some (bits', 2)"
    by (simp only: p simp_thms if_True w add_0)
  have s2: "loop_state ?c 2 = Some ([2, 0, 0, 0, 0], 3)" by code_simp
  have l2: "length ?c \<le> 3" by simp
  from t s2 l2 have b: "loop_state ?c (Suc 2) = None \<and> codeBitmap ?c = Some [2, 0, 0, 0, 0]"
    by blast
  from t have c: "\<exists>n\<le>length ?c. \<exists>bits pc. loop_state ?c n = Some (bits, pc) \<and> length ?c \<le> pc"
    by blast
  from s0 l0 a s2 l2 b c show ?thesis by blast
qed

section \<open>Push spans and single iterations\<close>

lemma loop_state_final:
  assumes "loop_state code n = Some (bits, pc)"
  shows "\<exists>final. codeBitmap code = Some final \<and> length final = length bits \<and>
     (\<forall>j. j \<le> pc \<and> j div 8 < length bits \<longrightarrow> bit_at final j = bit_at bits j) \<and>
     (\<forall>j. j div 8 < length bits \<and> bit_at bits j \<longrightarrow> bit_at final j)"
proof -
  from loop_state_inv [OF assms] have "length bits = length code div 8 + 1 + 4" "zero_from bits pc"
    by simp_all
  from codeBitmapLoop_run [OF this] loop_state_run [OF assms] show ?thesis by simp
qed

lemma loop_body_at_state:
  assumes "loop_state code n = Some (bits, pc)" "pc < length code"
  shows "\<exists>bits'. loop_body (code ! pc) bits pc = Some (bits', pc + push_width (code ! pc) + 1) \<and>
           marks bits bits' (pc + 1) (pc + 1 + push_width (code ! pc))"
  using loop_state_step [OF assms] assms by simp

lemma span_in_storage:
  assumes "pc < n" "j \<le> pc + 32"
  shows "j div 8 < n div 8 + 1 + (4::nat)"
proof -
  from assms have "j \<le> n + 32" by simp
  then have "j div 8 \<le> (n + 32) div 8" by (rule div_le_mono)
  also have "(n + 32) div 8 = n div 8 + 4" by simp
  finally show ?thesis by simp
qed

lemma zero_from_bit: "zero_from bits p \<Longrightarrow> p \<le> j \<Longrightarrow> j div 8 < length bits \<Longrightarrow> \<not> bit_at bits j"
  by (simp add: zero_from_def)

text \<open>
  C6. Let a push-literal opcode of width \<open>w\<close> stand at an offset \<open>pc\<close> that the scan
  visits, with \<open>pc + w < len(code)\<close>. Then in the vector that \<open>codeBitmap\<close> returns the
  bits at the offsets \<open>pc+1 .. pc+w\<close> are set (\<open>codeSegment\<close> is false there) and the bit
  at \<open>pc+w+1\<close> is unset (\<open>codeSegment\<close> is true there).
\<close>

theorem C6_push_span_is_data:
  assumes "loop_state code n = Some (bits, pc)" and "pc < length code"
    and "PUSH1 \<le> code ! pc" and "code ! pc \<le> PUSH32"
    and "w = unat (code ! pc) - unat PUSH1 + 1" and "pc + w < length code"
  shows "\<exists>final. codeBitmap code = Some final \<and>
           (\<forall>j. pc + 1 \<le> j \<and> j \<le> pc + w \<longrightarrow> codeSegment final j = Some False) \<and>
           codeSegment final (pc + w + 1) = Some True"
proof -
  have w: "push_width (code ! pc) = w" using assms(3,4,5) by (simp add: push_width_def)
  from loop_state_step [OF assms(1,2)] w obtain bits'
    where s: "loop_state code (Suc n) = Some (bits', pc + w + 1)"
      and m: "marks bits bits' (pc + 1) (pc + 1 + w)" by auto
  from loop_state_inv [OF s] have l': "length bits' = length code div 8 + 1 + 4"
    and z': "zero_from bits' (pc + w + 1)" by simp_all
  from loop_state_final [OF s] obtain final
    where f: "codeBitmap code = Some final" "length final = length bits'"
      and keep: "\<forall>j. j \<le> pc + w + 1 \<and> j div 8 < length bits' \<longrightarrow> bit_at final j = bit_at bits' j"
    by blast
  have st: "j div 8 < length bits'" if "j \<le> pc + w + 1" for j
  proof -
    from that assms(6) have "j \<le> length code" by simp
    then have "j div 8 \<le> length code div 8" by (rule div_le_mono)
    with l' show ?thesis by simp
  qed
  have a: "codeSegment final j = Some False" if "pc + 1 \<le> j \<and> j \<le> pc + w" for j
  proof -
    from that have j: "j \<le> pc + w + 1" by simp
    from m that st [OF j] have "bit_at bits' j" unfolding marks_def by simp
    with keep j st [OF j] have "bit_at final j" by simp
    with st [OF j] f(2) show ?thesis by (simp add: codeSegment_bit_at)
  qed
  have "\<not> bit_at bits' (pc + w + 1)" by (rule zero_from_bit [OF z' _ st]) simp_all
  with keep st [of "pc + w + 1"] have "\<not> bit_at final (pc + w + 1)" by simp
  with st [of "pc + w + 1"] f(2) have b: "codeSegment final (pc + w + 1) = Some True"
    by (simp add: codeSegment_bit_at)
  from f(1) a b show ?thesis by blast
qed

theorem C6_push_span_witness:
  "loop_state [0x60, 0xFF, 0x5B] 0 = Some ([0, 0, 0, 0, 0], 0) \<and>
   (0::nat) < length [0x60, 0xFF, 0x5B :: byte] \<and>
   PUSH1 \<le> [0x60, 0xFF, 0x5B] ! 0 \<and> [0x60, 0xFF, 0x5B] ! 0 \<le> PUSH32 \<and>
   (1::nat) = unat ([0x60, 0xFF, 0x5B :: byte] ! 0) - unat PUSH1 + 1 \<and>
   (0::nat) + 1 < length [0x60, 0xFF, 0x5B :: byte] \<and>
   codeBitmap [0x60, 0xFF, 0x5B] = Some [2, 0, 0, 0, 0] \<and>
   codeSegment [2, 0, 0, 0, 0] 1 = Some False \<and>
   codeSegment [2, 0, 0, 0, 0] 2 = Some True"
proof -
  let ?c = "[0x60, 0xFF, 0x5B] :: byte list"
  have s0: "loop_state ?c 0 = Some ([0, 0, 0, 0, 0], 0)" by code_simp
  have l0: "(0::nat) < length ?c" by simp
  have p1: "PUSH1 \<le> ?c ! 0" and p2: "?c ! 0 \<le> PUSH32" by (simp_all add: PUSH1_def PUSH32_def)
  have w: "(1::nat) = unat (?c ! 0) - unat PUSH1 + 1" by (simp add: PUSH1_def)
  have e: "(0::nat) + 1 < length ?c" by simp
  have v: "codeBitmap ?c = Some [2, 0, 0, 0, 0]" by code_simp
  from C6_push_span_is_data [OF s0 l0 p1 p2 w e] v
  have A: "\<forall>j. 0 + 1 \<le> j \<and> j \<le> 0 + 1 \<longrightarrow> codeSegment [2, 0, 0, 0, 0] j = Some False"
    and B: "codeSegment [2, 0, 0, 0, 0] (0 + 1 + 1) = Some True" by auto
  have r: "0 + 1 \<le> (1::nat) \<and> (1::nat) \<le> 0 + 1" and e2: "(0::nat) + 1 + 1 = 2" by simp_all
  from A r have a1: "codeSegment [2, 0, 0, 0, 0] 1 = Some False" by blast
  from B have a2: "codeSegment [2, 0, 0, 0, 0] 2 = Some True" unfolding e2 .
  from s0 l0 p1 p2 w e v a1 a2 show ?thesis by blast
qed

text \<open>
  C4. Let \<open>b\<close> be the byte that the scan evaluates as the current opcode at \<open>pc\<close>. If
  \<open>PUSH1 \<le> b \<le> PUSH32\<close>, the iteration sets exactly the \<open>w = b - PUSH1 + 1\<close> bits at
  \<open>pc+1 .. pc+w\<close>, with \<open>1 \<le> w \<le> 32\<close>: these bits were unset, every other bit of the
  vector is left as it was, and \<open>pc\<close> advances by \<open>w + 1\<close>. For every other byte the
  signed comparison \<open>int8(b) < int8(PUSH1)\<close> holds, also for the bytes above \<open>PUSH32\<close>,
  the vector is left unchanged and \<open>pc\<close> advances by exactly 1.
\<close>

theorem C4_iteration_by_opcode:
  assumes "loop_state code n = Some (bits, pc)" and "pc < length code" and "b = code ! pc"
  shows "(PUSH1 \<le> b \<and> b \<le> PUSH32 \<longrightarrow>
           (\<forall>w. w = unat b - unat PUSH1 + 1 \<longrightarrow> 1 \<le> w \<and> w \<le> 32 \<and>
              (\<exists>bits'. loop_body b bits pc = Some (bits', pc + (w + 1)) \<and>
                 length bits' = length bits \<and>
                 (\<forall>j. j div 8 < length bits \<longrightarrow>
                    codeSegment bits' j =
                      (if pc + 1 \<le> j \<and> j \<le> pc + w then Some False else codeSegment bits j)) \<and>
                 (\<forall>j. pc + 1 \<le> j \<and> j \<le> pc + w \<longrightarrow> codeSegment bits j = Some True)))) \<and>
         (\<not> (PUSH1 \<le> b \<and> b \<le> PUSH32) \<longrightarrow>
            sint b < sint PUSH1 \<and> loop_body b bits pc = Some (bits, pc + 1)) \<and>
         (PUSH32 < b \<longrightarrow> sint b < sint PUSH1)"
proof (intro conjI impI allI)
  fix w assume p: "PUSH1 \<le> b \<and> b \<le> PUSH32" and wd: "w = unat b - unat PUSH1 + 1"
  have w: "push_width b = w" using p wd by (simp add: push_width_def)
  from push_width_le [of b] w show "w \<le> 32" by simp
  from wd show "1 \<le> w" by simp
  from loop_state_inv [OF assms(1)] have l: "length bits = length code div 8 + 1 + 4"
    and z: "zero_from bits pc" by simp_all
  from loop_body_at_state [OF assms(1,2)] assms(3) w obtain bits'
    where lb: "loop_body b bits pc = Some (bits', pc + (w + 1))"
      and m: "marks bits bits' (pc + 1) (pc + 1 + w)"
    by (auto simp add: add.assoc)
  have st: "j div 8 < length bits" if "j \<le> pc + w" for j
    using span_in_storage [OF assms(2), of j] that \<open>w \<le> 32\<close> l by simp
  have unset: "\<forall>j. pc + 1 \<le> j \<and> j \<le> pc + w \<longrightarrow> codeSegment bits j = Some True"
  proof (intro allI impI)
    fix j assume j: "pc + 1 \<le> j \<and> j \<le> pc + w"
    then have "\<not> bit_at bits j" using zero_from_bit [OF z, of j] st [of j] by simp
    with j st [of j] show "codeSegment bits j = Some True" by (simp add: codeSegment_bit_at)
  qed
  have upd: "\<forall>j. j div 8 < length bits \<longrightarrow>
      codeSegment bits' j = (if pc + 1 \<le> j \<and> j \<le> pc + w then Some False else codeSegment bits j)"
  proof (intro allI impI)
    fix j assume j: "j div 8 < length bits"
    with m have "bit_at bits' j = (bit_at bits j \<or> (pc + 1 \<le> j \<and> j < pc + 1 + w))"
      and "length bits' = length bits" unfolding marks_def by simp_all
    with j show "codeSegment bits' j =
        (if pc + 1 \<le> j \<and> j \<le> pc + w then Some False else codeSegment bits j)"
      by (auto simp add: codeSegment_bit_at)
  qed
  from lb m unset upd
  show "\<exists>bits'. loop_body b bits pc = Some (bits', pc + (w + 1)) \<and>
                 length bits' = length bits \<and>
                 (\<forall>j. j div 8 < length bits \<longrightarrow>
                    codeSegment bits' j =
                      (if pc + 1 \<le> j \<and> j \<le> pc + w then Some False else codeSegment bits j)) \<and>
                 (\<forall>j. pc + 1 \<le> j \<and> j \<le> pc + w \<longrightarrow> codeSegment bits j = Some True)"
    using marks_length [OF m] by blast
next
  assume np: "\<not> (PUSH1 \<le> b \<and> b \<le> PUSH32)"
  then show "sint b < sint PUSH1" unfolding is_push_iff [symmetric] by simp
  from np show "loop_body b bits pc = Some (bits, pc + 1)" by (rule loop_body_not_push)
next
  assume "PUSH32 < b"
  then have "\<not> b \<le> PUSH32" by (simp add: not_le)
  then have "\<not> (PUSH1 \<le> b \<and> b \<le> PUSH32)" by simp
  then show "sint b < sint PUSH1" unfolding is_push_iff [symmetric] by simp
qed

theorem C4_iteration_by_opcode_witness:
  "loop_state [0x60, 0xFF, 0x5B] 0 = Some ([0, 0, 0, 0, 0], 0) \<and>
   (0::nat) < length [0x60, 0xFF, 0x5B :: byte] \<and>
   PUSH1 \<le> (0x60 :: byte) \<and> (0x60 :: byte) \<le> PUSH32 \<and>
   (1::nat) = unat (0x60 :: byte) - unat PUSH1 + 1 \<and>
   (\<exists>bits'. loop_body 0x60 [0, 0, 0, 0, 0] 0 = Some (bits', 0 + (1 + 1)) \<and>
      length bits' = length [0, 0, 0, 0, 0 :: byte] \<and>
      codeSegment bits' 1 = Some False \<and>
      codeSegment bits' 2 = codeSegment [0, 0, 0, 0, 0] 2 \<and>
      codeSegment [0, 0, 0, 0, 0] 1 = Some True) \<and>
   loop_state [0x80] 0 = Some ([0, 0, 0, 0, 0], 0) \<and>
   (0::nat) < length [0x80 :: byte] \<and>
   \<not> (PUSH1 \<le> (0x80 :: byte) \<and> (0x80 :: byte) \<le> PUSH32) \<and> PUSH32 < (0x80 :: byte) \<and>
   sint (0x80 :: byte) < sint PUSH1 \<and>
   loop_body 0x80 [0, 0, 0, 0, 0] 0 = Some ([0, 0, 0, 0, 0], 0 + 1)"
proof -
  let ?c = "[0x60, 0xFF, 0x5B] :: byte list"
  let ?z = "[0, 0, 0, 0, 0] :: byte list"
  have s0: "loop_state ?c 0 = Some (?z, 0)" by code_simp
  have l0: "(0::nat) < length ?c" by simp
  have b0: "(0x60 :: byte) = ?c ! 0" by simp
  have p: "PUSH1 \<le> (0x60 :: byte) \<and> (0x60 :: byte) \<le> PUSH32"
    by (simp add: PUSH1_def PUSH32_def)
  have w: "(1::nat) = unat (0x60 :: byte) - unat PUSH1 + 1" by (simp add: PUSH1_def)
  from C4_iteration_by_opcode [OF s0 l0 b0] p w
  obtain bits' where lb: "loop_body 0x60 ?z 0 = Some (bits', 0 + (1 + 1))"
    and len: "length bits' = length ?z"
    and upd: "\<forall>j. j div 8 < length ?z \<longrightarrow>
               codeSegment bits' j =
                 (if 0 + 1 \<le> j \<and> j \<le> 0 + 1 then Some False else codeSegment ?z j)"
    and unset: "\<forall>j. 0 + 1 \<le> j \<and> j \<le> 0 + 1 \<longrightarrow> codeSegment ?z j = Some True"
    by blast
  have j1: "(1::nat) div 8 < length ?z" "0 + 1 \<le> (1::nat) \<and> (1::nat) \<le> 0 + 1" by simp_all
  have j2: "(2::nat) div 8 < length ?z" "\<not> (0 + 1 \<le> (2::nat) \<and> (2::nat) \<le> 0 + 1)" by simp_all
  from upd j1(1) have "codeSegment bits' 1 =
      (if 0 + 1 \<le> (1::nat) \<and> (1::nat) \<le> 0 + 1 then Some False else codeSegment ?z 1)" by blast
  then have u1: "codeSegment bits' 1 = Some False" by (simp only: j1(2) simp_thms if_True)
  from upd j2(1) have "codeSegment bits' 2 =
      (if 0 + 1 \<le> (2::nat) \<and> (2::nat) \<le> 0 + 1 then Some False else codeSegment ?z 2)" by blast
  then have u2: "codeSegment bits' 2 = codeSegment ?z 2" by (simp only: j2(2) simp_thms if_False)
  from unset j1 have u3: "codeSegment ?z 1 = Some True" by blast
  from lb len u1 u2 u3
  have push: "\<exists>bits'. loop_body 0x60 ?z 0 = Some (bits', 0 + (1 + 1)) \<and>
      length bits' = length ?z \<and> codeSegment bits' 1 = Some False \<and>
      codeSegment bits' 2 = codeSegment ?z 2 \<and> codeSegment ?z 1 = Some True"
    by blast
  let ?d = "[0x80] :: byte list"
  have t0: "loop_state ?d 0 = Some (?z, 0)" by code_simp
  have m0: "(0::nat) < length ?d" by simp
  have c0: "(0x80 :: byte) = ?d ! 0" by simp
  have np: "\<not> (PUSH1 \<le> (0x80 :: byte) \<and> (0x80 :: byte) \<le> PUSH32)" and gt: "PUSH32 < (0x80 :: byte)"
    by (simp_all add: PUSH1_def PUSH32_def)
  from C4_iteration_by_opcode [OF t0 m0 c0] np
  have other: "sint (0x80 :: byte) < sint PUSH1 \<and> loop_body 0x80 ?z 0 = Some (?z, 0 + 1)"
    by blast
  from s0 l0 p w push t0 m0 np gt other show ?thesis by blast
qed

section \<open>The size of the storage\<close>

lemma margin_full:
  fixes l q r b :: nat
  assumes "l = 8 * q + r" "r < 8" "b = 8 * q + 40"
  shows "b = l + (40 - r)" "l + 33 \<le> b" "(l + 40 \<le> b) = (r = 0)"
  using assms by auto

text \<open>
  C8, as the code has it. \<open>codeBitmap\<close> allocates exactly \<open>len(code)/8 + 1 + 4\<close> bytes,
  a fixed margin of 4 bytes beyond \<open>len(code)/8 + 1\<close>. Counted in bits, the storage
  extends beyond the \<open>len(code)\<close> bits of the code by \<open>40 - len(code) mod 8\<close> bits: always
  at least 33 bits, and the full 5 bytes exactly when \<open>len(code)\<close> is a multiple of 8.
\<close>

theorem C8_storage_size:
  "\<exists>bits. codeBitmap code = Some bits \<and>
     length bits = length code div 8 + 1 + 4 \<and>
     8 * length bits = length code + (40 - length code mod 8) \<and>
     length code + 33 \<le> 8 * length bits \<and>
     (length code + 8 * (32 div 8 + 1) \<le> 8 * length bits) = (length code mod 8 = 0)"
proof -
  from codeBitmap_refines [of code] obtain bits
    where b: "codeBitmap code = Some bits" "length bits = length code div 8 + 1 + 4" by blast
  have d: "length code = 8 * (length code div 8) + length code mod 8" by simp
  have m: "length code mod 8 < 8" by simp
  from b(2) have e: "8 * length bits = 8 * (length code div 8) + 40" by simp
  note mf = margin_full [OF d m e]
  note 1 = mf(1) and 2 = mf(2)
  have c5: "8 * (32 div 8 + 1) = (40::nat)" by simp
  have 3: "(length code + 8 * (32 div 8 + 1) \<le> 8 * length bits) = (length code mod 8 = 0)"
    unfolding c5 by (rule mf(3))
  show ?thesis by (intro exI [of _ bits] conjI b 1 2 3)
qed

text \<open>
  C8 as stated fails for the one-byte code \<open>[STOP]\<close>: the storage is 5 bytes, 40 bits,
  which is 39 bits more than the single bit of the code and so less than 5 bytes more.
\<close>

theorem C8_counterexample:
  "codeBitmap [0x00] = Some [0, 0, 0, 0, 0] \<and>
   \<not> (length [0x00 :: byte] + 8 * (32 div 8 + 1) \<le> 8 * length [0, 0, 0, 0, 0 :: byte])"
proof -
  have "codeBitmap [0x00] = Some [0, 0, 0, 0, 0]" by code_simp
  then show ?thesis by simp
qed

section \<open>Monotone growth of the marked bits\<close>

lemma loop_state_later:
  "loop_state code n = Some (bits, pc) \<Longrightarrow> loop_state code (n + k) = Some (bits', pc') \<Longrightarrow>
   length bits' = length bits \<and> pc \<le> pc' \<and>
   (\<forall>j. j \<le> pc \<and> j div 8 < length bits \<longrightarrow> bit_at bits' j = bit_at bits j) \<and>
   (\<forall>j. j div 8 < length bits \<and> bit_at bits j \<longrightarrow> bit_at bits' j)"
proof (induction k arbitrary: bits' pc')
  case 0
  then show ?case by simp
next
  case (Suc k)
  from Suc.prems(2) obtain b1 p1 where s1: "loop_state code (n + k) = Some (b1, p1)"
    and lt: "p1 < length code" and lb: "loop_body (code ! p1) b1 p1 = Some (bits', pc')"
    by (auto split: option.splits if_splits)
  from Suc.IH [OF Suc.prems(1) s1] have l1: "length b1 = length bits" and p1: "pc \<le> p1"
    and keep: "\<forall>j. j \<le> pc \<and> j div 8 < length bits \<longrightarrow> bit_at b1 j = bit_at bits j"
    and mono: "\<forall>j. j div 8 < length bits \<and> bit_at bits j \<longrightarrow> bit_at b1 j" by simp_all
  from loop_body_at_state [OF s1 lt] lb
  have pc': "pc' = p1 + push_width (code ! p1) + 1"
    and m: "marks b1 bits' (p1 + 1) (p1 + 1 + push_width (code ! p1))" by auto
  from m l1 have l': "length bits' = length bits"
    and upd: "\<forall>j. j div 8 < length bits \<longrightarrow>
      bit_at bits' j = (bit_at b1 j \<or> (p1 + 1 \<le> j \<and> j < p1 + 1 + push_width (code ! p1)))"
    unfolding marks_def by simp_all
  have "\<forall>j. j \<le> pc \<and> j div 8 < length bits \<longrightarrow> bit_at bits' j = bit_at bits j"
    using upd keep p1 by auto
  moreover have "\<forall>j. j div 8 < length bits \<and> bit_at bits j \<longrightarrow> bit_at bits' j"
    using upd mono by auto
  ultimately show ?case using l' pc' p1 by simp
qed

lemma zero_from_codeSegment:
  "zero_from b pos = (\<forall>j. pos \<le> j \<and> j div 8 < length b \<longrightarrow> codeSegment b j = Some True)"
  by (auto simp add: zero_from_def codeSegment_bit_at)

lemma marks_keeps_data:
  assumes "marks b b' lo hi" "codeSegment b j = Some False"
  shows "codeSegment b' j = Some False"
  using assms unfolding marks_def by (auto simp add: codeSegment_bit_at split: if_splits)

lemma plain_stores_keep_data:
  assumes "\<forall>j. pos \<le> j \<and> j div 8 < length b \<longrightarrow> codeSegment b j = Some True"
    and "set16 b pos = Some b' \<or> set8 b pos = Some b' \<or>
         setN b set2BitsMask pos = Some b' \<or> setN b set3BitsMask pos = Some b' \<or>
         setN b set4BitsMask pos = Some b' \<or> setN b set5BitsMask pos = Some b' \<or>
         setN b set6BitsMask pos = Some b' \<or> setN b set7BitsMask pos = Some b'"
    and "codeSegment b j = Some False"
  shows "codeSegment b' j = Some False"
proof -
  from assms(1) have z: "zero_from b pos" by (simp add: zero_from_codeSegment)
  have n: "\<exists>hi. marks b b' pos hi" if "k < 8" "setN b (mask k) pos = Some b'" for k
    using setN_marks_result [OF that z] by blast
  from assms(2) consider "set16 b pos = Some b'" | "set8 b pos = Some b'"
    | "setN b (mask 2) pos = Some b'" | "setN b (mask 3) pos = Some b'"
    | "setN b (mask 4) pos = Some b'" | "setN b (mask 5) pos = Some b'"
    | "setN b (mask 6) pos = Some b'" | "setN b (mask 7) pos = Some b'"
    unfolding masks by blast
  then have "\<exists>hi. marks b b' pos hi"
  proof cases
    case 1 from set16_marks_result [OF 1 z] show ?thesis ..
  next
    case 2 from set8_marks_result [OF 2 z] show ?thesis ..
  next
    case 3 from n [OF _ 3] show ?thesis by simp
  next
    case 4 from n [OF _ 4] show ?thesis by simp
  next
    case 5 from n [OF _ 5] show ?thesis by simp
  next
    case 6 from n [OF _ 6] show ?thesis by simp
  next
    case 7 from n [OF _ 7] show ?thesis by simp
  next
    case 8 from n [OF _ 8] show ?thesis by simp
  qed
  then obtain hi where "marks b b' pos hi" ..
  from marks_keeps_data [OF this assms(3)] show ?thesis .
qed

text \<open>
  C5. Along the scan the set of marked bits only grows, and an offset at which the scan
  evaluated a byte as the current opcode is never marked afterwards. Between the heads
  of any two iterations, the earlier before the later, every bit set at the earlier one
  is set at the later one, and the bit of the earlier \<open>pc\<close> is unset at the later one;
  the same holds for the vector that \<open>codeBitmap\<close> returns. At the head of an iteration
  no bit at or beyond \<open>pc\<close> is set, so the plain stores of \<open>setN\<close>, \<open>set8\<close> and \<open>set16\<close>,
  which touch only bytes beyond the one holding the position they are called at,
  overwrite nothing that was set: applied to any vector with no bit set at or beyond
  that position, each of them keeps every set bit.
\<close>

theorem C5_marked_bits_grow:
  assumes "loop_state code n = Some (bits, pc)"
    and "loop_state code (n + k) = Some (bits', pc')"
  shows "(\<forall>j. codeSegment bits j = Some False \<longrightarrow> codeSegment bits' j = Some False) \<and>
         (pc < length code \<longrightarrow> codeSegment bits' pc = Some True) \<and>
         (\<forall>j. pc' \<le> j \<and> j div 8 < length bits' \<longrightarrow> codeSegment bits' j = Some True) \<and>
         (\<exists>final. codeBitmap code = Some final \<and>
            (\<forall>j. codeSegment bits' j = Some False \<longrightarrow> codeSegment final j = Some False) \<and>
            (pc < length code \<longrightarrow> codeSegment final pc = Some True)) \<and>
         (\<forall>b pos b'.
            (\<forall>j. pos \<le> j \<and> j div 8 < length b \<longrightarrow> codeSegment b j = Some True) \<and>
            (set16 b pos = Some b' \<or> set8 b pos = Some b' \<or>
             setN b set2BitsMask pos = Some b' \<or> setN b set3BitsMask pos = Some b' \<or>
             setN b set4BitsMask pos = Some b' \<or> setN b set5BitsMask pos = Some b' \<or>
             setN b set6BitsMask pos = Some b' \<or> setN b set7BitsMask pos = Some b') \<longrightarrow>
            (\<forall>j. codeSegment b j = Some False \<longrightarrow> codeSegment b' j = Some False))"
proof -
  from loop_state_later [OF assms] have l': "length bits' = length bits" and le: "pc \<le> pc'"
    and keep: "\<forall>j. j \<le> pc \<and> j div 8 < length bits \<longrightarrow> bit_at bits' j = bit_at bits j"
    and mono: "\<forall>j. j div 8 < length bits \<and> bit_at bits j \<longrightarrow> bit_at bits' j" by simp_all
  from loop_state_inv [OF assms(1)] have l: "length bits = length code div 8 + 1 + 4"
    and z: "zero_from bits pc" by simp_all
  from loop_state_inv [OF assms(2)] have z': "zero_from bits' pc'" by simp
  have st: "pc div 8 < length bits" if "pc < length code"
    using offset_in_storage [OF that] l by simp
  have 1: "\<forall>j. codeSegment bits j = Some False \<longrightarrow> codeSegment bits' j = Some False"
    using mono l' by (auto simp add: codeSegment_bit_at split: if_splits)
  have u: "\<not> bit_at bits' pc" if "pc < length code"
    using keep st [OF that] zero_from_bit [OF z, of pc] by simp
  have 2: "pc < length code \<longrightarrow> codeSegment bits' pc = Some True"
    using u st l' by (simp add: codeSegment_bit_at)
  have 3: "\<forall>j. pc' \<le> j \<and> j div 8 < length bits' \<longrightarrow> codeSegment bits' j = Some True"
    using zero_from_bit [OF z'] by (simp add: codeSegment_bit_at)
  from loop_state_final [OF assms(2)] obtain final
    where f: "codeBitmap code = Some final" "length final = length bits'"
      and fkeep: "\<forall>j. j \<le> pc' \<and> j div 8 < length bits' \<longrightarrow> bit_at final j = bit_at bits' j"
      and fmono: "\<forall>j. j div 8 < length bits' \<and> bit_at bits' j \<longrightarrow> bit_at final j" by blast
  have 4: "\<forall>j. codeSegment bits' j = Some False \<longrightarrow> codeSegment final j = Some False"
    using fmono f(2) by (auto simp add: codeSegment_bit_at split: if_splits)
  have 5: "pc < length code \<longrightarrow> codeSegment final pc = Some True"
    using fkeep le u st l' f(2) by (simp add: codeSegment_bit_at)
  from f(1) 4 5 have "\<exists>final. codeBitmap code = Some final \<and>
            (\<forall>j. codeSegment bits' j = Some False \<longrightarrow> codeSegment final j = Some False) \<and>
            (pc < length code \<longrightarrow> codeSegment final pc = Some True)" by blast
  moreover have "\<forall>b pos b'.
            (\<forall>j. pos \<le> j \<and> j div 8 < length b \<longrightarrow> codeSegment b j = Some True) \<and>
            (set16 b pos = Some b' \<or> set8 b pos = Some b' \<or>
             setN b set2BitsMask pos = Some b' \<or> setN b set3BitsMask pos = Some b' \<or>
             setN b set4BitsMask pos = Some b' \<or> setN b set5BitsMask pos = Some b' \<or>
             setN b set6BitsMask pos = Some b' \<or> setN b set7BitsMask pos = Some b') \<longrightarrow>
            (\<forall>j. codeSegment b j = Some False \<longrightarrow> codeSegment b' j = Some False)"
    using plain_stores_keep_data by blast
  ultimately show ?thesis using 1 2 3 by (intro conjI)
qed

theorem C5_marked_bits_grow_witness:
  "loop_state [0x60, 0xFF, 0x5B] 1 = Some ([2, 0, 0, 0, 0], 2) \<and>
   loop_state [0x60, 0xFF, 0x5B] (1 + 1) = Some ([2, 0, 0, 0, 0], 3) \<and>
   codeSegment [2, 0, 0, 0, 0] 1 = Some False \<and>
   (2::nat) < length [0x60, 0xFF, 0x5B :: byte] \<and>
   codeSegment [2, 0, 0, 0, 0] 2 = Some True \<and>
   (3::nat) \<le> 5 \<and> (5::nat) div 8 < length [2, 0, 0, 0, 0 :: byte] \<and>
   codeSegment [2, 0, 0, 0, 0] 5 = Some True \<and>
   codeBitmap [0x60, 0xFF, 0x5B] = Some [2, 0, 0, 0, 0] \<and>
   set8 [2, 0, 0, 0, 0] 3 = Some [250, 7, 0, 0, 0] \<and>
   codeSegment [250, 7, 0, 0, 0] 1 = Some False"
proof -
  let ?c = "[0x60, 0xFF, 0x5B] :: byte list"
  let ?b = "[2, 0, 0, 0, 0] :: byte list"
  have s1: "loop_state ?c 1 = Some (?b, 2)" by code_simp
  have s2: "loop_state ?c (1 + 1) = Some (?b, 3)" by code_simp
  have d1: "codeSegment ?b 1 = Some False" by code_simp
  have l2: "(2::nat) < length ?c" by simp
  have r5: "(3::nat) \<le> 5 \<and> (5::nat) div 8 < length ?b" by simp
  have v: "codeBitmap ?c = Some ?b" by code_simp
  have s8: "set8 ?b 3 = Some [250, 7, 0, 0, 0]" by code_simp
  note t = C5_marked_bits_grow [OF s1 s2]
  from t l2 have a: "codeSegment ?b 2 = Some True" by blast
  from t have z: "\<forall>j. 3 \<le> j \<and> j div 8 < length ?b \<longrightarrow> codeSegment ?b j = Some True" by blast
  with r5 have b: "codeSegment ?b 5 = Some True" by blast
  from t z s8 d1 have c: "codeSegment [250, 7, 0, 0, 0] 1 = Some False" by blast
  from s1 s2 d1 l2 a r5 b v c s8 show ?thesis by blast
qed

section \<open>Independence from the bytes of push data\<close>

lemma codeBitmapLoop_same:
  "length c1 = length c2 \<Longrightarrow> length bits = length c1 div 8 + 1 + 4 \<Longrightarrow> zero_from bits pc \<Longrightarrow>
   codeBitmapLoop c1 bits pc = Some b1 \<Longrightarrow>
   (\<forall>i. pc \<le> i \<and> i < length c1 \<and> c1 ! i \<noteq> c2 ! i \<longrightarrow> bit_at b1 i) \<Longrightarrow>
   codeBitmapLoop c2 bits pc = Some b1"
proof (induction c1 bits pc rule: codeBitmapLoop.induct)
  case (1 code bits pc)
  show ?case
  proof (cases "pc < length code")
    case False
    with "1.prems"(4) have "b1 = bits" by (subst (asm) codeBitmapLoop.simps) simp
    with False "1.prems"(1) show ?thesis by (subst codeBitmapLoop.simps) simp
  next
    case True
    have st: "pc div 8 < length bits" using offset_in_storage [OF True] "1.prems"(2) by simp
    from codeBitmapLoop_run [OF "1.prems"(2,3)] "1.prems"(4) st
    have "bit_at b1 pc = bit_at bits pc" by auto
    with zero_from_bit [OF "1.prems"(3) _ st] have "\<not> bit_at b1 pc" by simp
    with "1.prems"(5) True have same: "code ! pc = c2 ! pc" by auto
    have len: "(pc + 1) div 8 + 4 < length bits" using div8_bound [OF True] "1.prems"(2) by simp
    have z1: "zero_from bits (pc + 1)" by (rule zero_from_mono [OF "1.prems"(3)]) simp
    let ?pc' = "pc + push_width (code ! pc) + 1"
    from loop_body_marks [OF len z1, of "code ! pc"] obtain bits'
      where lb: "loop_body (code ! pc) bits pc = Some (bits', ?pc')"
        and m: "marks bits bits' (pc + 1) (pc + 1 + push_width (code ! pc))" by auto
    have z': "zero_from bits' ?pc'"
      using marks_zero_from [OF z1 m] by (simp add: add.commute add.left_commute)
    have l': "length bits' = length code div 8 + 1 + 4"
      using marks_length [OF m] "1.prems"(2) by simp
    have r1: "codeBitmapLoop code bits' ?pc' = Some b1"
      using "1.prems"(4) True lb by (subst (asm) codeBitmapLoop.simps) simp
    have d: "\<forall>i. ?pc' \<le> i \<and> i < length code \<and> code ! i \<noteq> c2 ! i \<longrightarrow> bit_at b1 i"
      using "1.prems"(5) by auto
    from "1.IH" [OF True lb refl "1.prems"(1) l' z' r1 d]
    have "codeBitmapLoop c2 bits' ?pc' = Some b1" .
    with True "1.prems"(1) lb same show ?thesis
      by (subst codeBitmapLoop.simps) simp
  qed
qed

lemma codeBitmap_same:
  assumes "length c1 = length c2" "codeBitmap c1 = Some b1"
    and "\<forall>i<length c1. c1 ! i \<noteq> c2 ! i \<longrightarrow> codeSegment b1 i = Some False"
  shows "codeBitmap c2 = Some b1"
proof -
  let ?z = "replicate (length c1 div 8 + 1 + 4) (0::byte)"
  have r: "codeBitmapLoop c1 ?z 0 = Some b1"
    using assms(2) by (simp add: codeBitmap_def codeBitmapInternal_def)
  from codeBitmapLoop_run [of ?z c1 0] r have lb: "length b1 = length c1 div 8 + 1 + 4"
    by (auto simp add: zero_from_replicate)
  have d: "\<forall>i. 0 \<le> i \<and> i < length c1 \<and> c1 ! i \<noteq> c2 ! i \<longrightarrow> bit_at b1 i"
  proof (intro allI impI)
    fix i assume i: "0 \<le> i \<and> i < length c1 \<and> c1 ! i \<noteq> c2 ! i"
    with assms(3) have "codeSegment b1 i = Some False" by blast
    moreover from i have "i div 8 < length b1" using offset_in_storage [of i "length c1"] lb by simp
    ultimately show "bit_at b1 i" by (simp add: codeSegment_bit_at)
  qed
  from codeBitmapLoop_same [OF assms(1) _ zero_from_replicate r d]
  have "codeBitmapLoop c2 ?z 0 = Some b1" by simp
  with assms(1) show ?thesis by (simp add: codeBitmap_def codeBitmapInternal_def)
qed

lemma push32_span_is_data:
  assumes "loop_state code n = Some (bits, pc)" "pc < length code" "code ! pc = PUSH32"
    and "pc < i" "i \<le> pc + 32" "i < length code"
  shows "\<exists>final. codeBitmap code = Some final \<and> codeSegment final i = Some False"
proof -
  have w: "push_width (code ! pc) = 32"
    using assms(3) by (simp add: push_width_def PUSH1_def PUSH32_def)
  from loop_state_step [OF assms(1,2)] w obtain bits'
    where s: "loop_state code (Suc n) = Some (bits', pc + 32 + 1)"
      and m: "marks bits bits' (pc + 1) (pc + 1 + 32)" by auto
  from loop_state_inv [OF s] have l': "length bits' = length code div 8 + 1 + 4" by simp
  have st: "i div 8 < length bits'" using offset_in_storage [OF assms(6)] l' by simp
  from m st assms(4,5) have "bit_at bits' i" unfolding marks_def by simp
  moreover from loop_state_final [OF s] obtain final
    where f: "codeBitmap code = Some final" "length final = length bits'"
      and keep: "\<forall>j. j \<le> pc + 32 + 1 \<and> j div 8 < length bits' \<longrightarrow> bit_at final j = bit_at bits' j"
    by blast
  ultimately have "bit_at final i" using st assms(5) by simp
  with st f show ?thesis by (simp add: codeSegment_bit_at)
qed

text \<open>
  C3. The classification does not depend on the bytes inside push data. If two codes
  of equal length differ only at offsets that \<open>codeBitmap\<close> classifies as data for the
  first, then \<open>codeBitmap\<close> returns the same vector for the second. In particular every
  offset \<open>i\<close> below \<open>len(code)\<close> inside the 32-byte span of a \<open>PUSH32\<close> that the scan
  visits is classified as data whatever byte stands there, \<open>JUMPDEST\<close> included.
\<close>

theorem C3_push_data_bytes_do_not_matter:
  "(length c1 = length c2 \<and> codeBitmap c1 = Some b1 \<and>
    (\<forall>i<length c1. c1 ! i \<noteq> c2 ! i \<longrightarrow> codeSegment b1 i = Some False) \<longrightarrow>
    codeBitmap c2 = Some b1) \<and>
   (loop_state c1 n = Some (bits, pc) \<and> pc < length c1 \<and> c1 ! pc = PUSH32 \<and>
    pc < i \<and> i \<le> pc + 32 \<and> i < length c1 \<longrightarrow>
    (\<exists>final. codeBitmap c1 = Some final \<and> codeSegment final i = Some False))"
  using codeBitmap_same [of c1 c2 b1] push32_span_is_data [of c1 n bits pc i] by blast


theorem C3_push_data_bytes_witness:
  "length [0x60, 0x00, 0x5B :: byte] = length [0x60, 0x5B, 0x5B :: byte] \<and>
   codeBitmap [0x60, 0x00, 0x5B] = Some [2, 0, 0, 0, 0] \<and>
   [0x60, 0x00, 0x5B :: byte] ! 1 \<noteq> [0x60, 0x5B, 0x5B] ! 1 \<and>
   codeSegment [2, 0, 0, 0, 0] 1 = Some False \<and>
   codeBitmap [0x60, 0x5B, 0x5B] = Some [2, 0, 0, 0, 0] \<and>
   loop_state (PUSH32 # replicate 32 JUMPDEST @ [JUMPDEST]) 0 = Some (replicate 9 0, 0) \<and>
   (0::nat) < length (PUSH32 # replicate 32 JUMPDEST @ [JUMPDEST]) \<and>
   (PUSH32 # replicate 32 JUMPDEST @ [JUMPDEST]) ! 0 = PUSH32 \<and>
   (0::nat) < 5 \<and> (5::nat) \<le> 0 + 32 \<and>
   (5::nat) < length (PUSH32 # replicate 32 JUMPDEST @ [JUMPDEST]) \<and>
   (PUSH32 # replicate 32 JUMPDEST @ [JUMPDEST]) ! 5 = JUMPDEST \<and>
   codeBitmap (PUSH32 # replicate 32 JUMPDEST @ [JUMPDEST]) =
     Some [254, 255, 255, 255, 1, 0, 0, 0, 0] \<and>
   codeSegment [254, 255, 255, 255, 1, 0, 0, 0, 0] 5 = Some False"
proof -
  let ?c1 = "[0x60, 0x00, 0x5B] :: byte list"
  let ?c2 = "[0x60, 0x5B, 0x5B] :: byte list"
  let ?b1 = "[2, 0, 0, 0, 0] :: byte list"
  let ?s = "PUSH32 # replicate 32 JUMPDEST @ [JUMPDEST]"
  let ?bs = "[254, 255, 255, 255, 1, 0, 0, 0, 0] :: byte list"
  have l: "length ?c1 = length ?c2" by simp
  have v1: "codeBitmap ?c1 = Some ?b1" by code_simp
  have ne: "?c1 ! 1 \<noteq> ?c2 ! 1" by simp
  have d1: "codeSegment ?b1 1 = Some False" by code_simp
  have diff: "\<forall>i<length ?c1. ?c1 ! i \<noteq> ?c2 ! i \<longrightarrow> codeSegment ?b1 i = Some False"
  proof (intro allI impI)
    fix i :: nat assume "i < length ?c1" and n: "?c1 ! i \<noteq> ?c2 ! i"
    then have "i = 0 \<or> i = 1 \<or> i = 2" by auto
    with n have "i = 1" by auto
    with d1 show "codeSegment ?b1 i = Some False" by simp
  qed
  have s0: "loop_state ?s 0 = Some (replicate 9 0, 0)" by code_simp
  have l0: "(0::nat) < length ?s" by simp
  have p: "?s ! 0 = PUSH32" by simp
  have r: "(0::nat) < 5" "(5::nat) \<le> 0 + 32" by simp_all
  have l5: "(5::nat) < length ?s" by simp
  have j: "?s ! 5 = JUMPDEST" by code_simp
  have vs: "codeBitmap ?s = Some ?bs" by code_simp
  note t1 = C3_push_data_bytes_do_not_matter [of ?c1 ?c2 ?b1]
  note t2 = C3_push_data_bytes_do_not_matter [of ?s _ _ 0 "replicate 9 0" 0 5]
  from t1 l v1 diff have a: "codeBitmap ?c2 = Some ?b1" by blast
  from t2 s0 l0 p r l5 have "\<exists>final. codeBitmap ?s = Some final \<and> codeSegment final 5 = Some False"
    by blast
  with vs have b: "codeSegment ?bs 5 = Some False" by simp
  from l v1 ne d1 a s0 l0 p r l5 j vs b show ?thesis by blast
qed

section \<open>The store-level scan simulates the scan\<close>

lemma codeBitmapLoop_st_sim:
  "a < length h \<Longrightarrow> p < length h \<Longrightarrow> a \<noteq> p \<Longrightarrow> n = length (h ! a) \<Longrightarrow>
   codeBitmapLoop_st h a n p pc =
     map_option (\<lambda>bits'. h[p := bits']) (codeBitmapLoop (h ! a) (h ! p) pc)"
proof (induction h a n p pc rule: codeBitmapLoop_st.induct)
  case (1 h a n p pc)
  show ?case
  proof (cases "pc < n")
    case False
    with "1.prems" show ?thesis
      by (subst codeBitmapLoop_st.simps, subst codeBitmapLoop.simps) simp
  next
    case True
    show ?thesis
    proof (cases "loop_body (h ! a ! pc) (h ! p) pc")
      case None
      with True "1.prems" show ?thesis
        by (subst codeBitmapLoop_st.simps, subst codeBitmapLoop.simps)
          (simp add: loop_body_st_def)
    next
      case (Some r)
      obtain bits' pc' where r: "r = (bits', pc')" by (cases r)
      let ?h' = "h[p := bits']"
      have lb: "loop_body_st h p (h ! a ! pc) pc = Some (?h', pc')"
        using Some r "1.prems"(2) by (simp add: loop_body_st_def)
      have g: "a < length h \<and> pc < length (h ! a)" using True "1.prems"(1,4) by simp
      have ha: "?h' ! a = h ! a" and hp: "?h' ! p = bits'"
        using "1.prems"(1,2,3) by simp_all
      from "1.IH" [OF True g lb refl] "1.prems" ha
      have "codeBitmapLoop_st ?h' a n p pc' =
          map_option (\<lambda>b. ?h'[p := b]) (codeBitmapLoop (?h' ! a) (?h' ! p) pc')" by simp
      then have ih: "codeBitmapLoop_st ?h' a n p pc' =
          map_option (\<lambda>b. h[p := b]) (codeBitmapLoop (h ! a) bits' pc')"
        by (simp add: ha hp)
      have 1: "codeBitmapLoop_st h a n p pc = codeBitmapLoop_st ?h' a n p pc'"
        using True g lb by (subst codeBitmapLoop_st.simps) simp
      have 2: "codeBitmapLoop (h ! a) (h ! p) pc = codeBitmapLoop (h ! a) bits' pc'"
        using True "1.prems"(4) Some r by (subst codeBitmapLoop.simps) simp
      from 1 2 ih show ?thesis by simp
    qed
  qed
qed

lemma codeBitmap_st_pure:
  assumes "a < length h"
  shows "\<exists>h' bits. codeBitmap_st h a = Some (h', length h) \<and> h' = h @ [bits] \<and>
           codeBitmap (h ! a) = Some bits"
proof -
  let ?n = "length (h ! a)"
  let ?z = "replicate (?n div 8 + 1 + 4) (0::byte)"
  let ?h1 = "h @ [?z]"
  from codeBitmap_refines [of "h ! a"] obtain bits where b: "codeBitmap (h ! a) = Some bits"
    by blast
  have "codeBitmapLoop_st ?h1 a ?n (length h) 0 =
      map_option (\<lambda>bits'. ?h1[length h := bits'])
        (codeBitmapLoop (?h1 ! a) (?h1 ! length h) 0)"
    by (rule codeBitmapLoop_st_sim) (use assms in \<open>simp_all add: nth_append\<close>)
  also have "?h1 ! a = h ! a" using assms by (simp add: nth_append)
  also have "?h1 ! length h = ?z" by simp
  also have "codeBitmapLoop (h ! a) ?z 0 = Some bits"
    using b by (simp add: codeBitmap_def codeBitmapInternal_def)
  finally have "codeBitmapLoop_st ?h1 a ?n (length h) 0 = Some (h @ [bits])" by simp
  with assms b show ?thesis by (simp add: codeBitmap_st_def make_def)
qed

section \<open>Determinism and absence of side effects\<close>

text \<open>
  The store can express a call that does mutate its input: \<open>codeBitmapInternal\<close> called
  with \<open>bits\<close> sharing the array of \<open>code\<close> overwrites the code.
\<close>

lemma codeBitmapLoop_st_aliased:
  "codeBitmapLoop_st [[0x60, 0, 0, 0, 0]] 0 5 0 0 = Some [[0x62, 0, 0, 0, 0]]"
  by code_simp

text \<open>
  C9. \<open>codeBitmap\<close> is deterministic, free of side effects and idempotent. Called in
  any store on the array at an address \<open>a\<close>, it returns; the returned vector lies at an
  address that did not exist before the call; every array that existed before the
  call, the code among them, is unchanged; and the returned vector is the value of the
  function \<open>codeBitmap\<close> at the bytes of the code, so that any call on the same bytes, in
  any store and at any address, returns an identical vector. A second call after the
  first returns another new array with the same contents and leaves the first result
  and all earlier arrays unchanged.
\<close>

theorem C9_codeBitmap_is_pure:
  assumes "a < length h"
  shows "\<exists>h' p bits. codeBitmap_st h a = Some (h', p) \<and> p = length h \<and> h' = h @ [bits] \<and>
           codeBitmap (h ! a) = Some bits \<and>
           (\<forall>q<length h. h' ! q = h ! q) \<and>
           (\<forall>h2 a2. a2 < length h2 \<and> h2 ! a2 = h ! a \<longrightarrow>
              (\<exists>h2' p2. codeBitmap_st h2 a2 = Some (h2', p2) \<and> h2' ! p2 = bits)) \<and>
           (\<exists>h'' p'. codeBitmap_st h' a = Some (h'', p') \<and> p' \<noteq> p \<and>
              h'' ! p' = bits \<and> h'' ! p = bits \<and> (\<forall>q<length h. h'' ! q = h ! q))"
proof -
  from codeBitmap_st_pure [OF assms] obtain bits
    where r: "codeBitmap_st h a = Some (h @ [bits], length h)"
      and b: "codeBitmap (h ! a) = Some bits" by blast
  let ?h' = "h @ [bits]"
  have keep: "\<forall>q<length h. ?h' ! q = h ! q" by (simp add: nth_append)
  have det: "\<forall>h2 a2. a2 < length h2 \<and> h2 ! a2 = h ! a \<longrightarrow>
              (\<exists>h2' p2. codeBitmap_st h2 a2 = Some (h2', p2) \<and> h2' ! p2 = bits)"
  proof (intro allI impI)
    fix h2 :: store and a2
    assume h2: "a2 < length h2 \<and> h2 ! a2 = h ! a"
    then have "a2 < length h2" ..
    from codeBitmap_st_pure [OF this] obtain bits2
      where r2: "codeBitmap_st h2 a2 = Some (h2 @ [bits2], length h2)"
        and b2: "codeBitmap (h2 ! a2) = Some bits2" by blast
    from b2 h2 b have "bits2 = bits" by simp
    with r2 have "codeBitmap_st h2 a2 = Some (h2 @ [bits], length h2) \<and>
        (h2 @ [bits]) ! length h2 = bits" by simp
    then show "\<exists>h2' p2. codeBitmap_st h2 a2 = Some (h2', p2) \<and> h2' ! p2 = bits" by blast
  qed
  have a': "a < length ?h'" using assms by simp
  have ha: "?h' ! a = h ! a" using assms by (simp add: nth_append)
  from codeBitmap_st_pure [OF a'] obtain bits3
    where r3: "codeBitmap_st ?h' a = Some (?h' @ [bits3], length ?h')"
      and b3: "codeBitmap (?h' ! a) = Some bits3" by blast
  from b3 ha b have "bits3 = bits" by simp
  with r3 have again: "codeBitmap_st ?h' a = Some (?h' @ [bits], length ?h')" by simp
  have idem: "\<exists>h'' p'. codeBitmap_st ?h' a = Some (h'', p') \<and> p' \<noteq> length h \<and>
      h'' ! p' = bits \<and> h'' ! length h = bits \<and> (\<forall>q<length h. h'' ! q = h ! q)"
  proof (rule exI [of _ "?h' @ [bits]"], rule exI [of _ "length ?h'"], intro conjI)
    show "codeBitmap_st ?h' a = Some (?h' @ [bits], length ?h')" by (rule again)
    show "length ?h' \<noteq> length h" by simp
    show "(?h' @ [bits]) ! length ?h' = bits" by (rule nth_append_length)
    show "(?h' @ [bits]) ! length h = bits" by (simp add: nth_append)
    show "\<forall>q<length h. (?h' @ [bits]) ! q = h ! q" by (simp add: nth_append)
  qed
  show ?thesis
  proof (rule exI [of _ ?h'], rule exI [of _ "length h"], rule exI [of _ bits], intro conjI)
    show "codeBitmap_st h a = Some (?h', length h)" by (rule r)
    show "length h = length h" ..
    show "?h' = h @ [bits]" ..
    show "codeBitmap (h ! a) = Some bits" by (rule b)
    show "\<forall>q<length h. ?h' ! q = h ! q" by (rule keep)
    show "\<forall>h2 a2. a2 < length h2 \<and> h2 ! a2 = h ! a \<longrightarrow>
              (\<exists>h2' p2. codeBitmap_st h2 a2 = Some (h2', p2) \<and> h2' ! p2 = bits)" by (rule det)
    show "\<exists>h'' p'. codeBitmap_st ?h' a = Some (h'', p') \<and> p' \<noteq> length h \<and>
      h'' ! p' = bits \<and> h'' ! length h = bits \<and> (\<forall>q<length h. h'' ! q = h ! q)" by (rule idem)
  qed
qed

theorem C9_codeBitmap_is_pure_witness:
  "(0::nat) < length [[0x60, 0xFF, 0x5B :: byte]] \<and>
   codeBitmap_st [[0x60, 0xFF, 0x5B]] 0 =
     Some ([[0x60, 0xFF, 0x5B], [2, 0, 0, 0, 0]], 1) \<and>
   codeBitmap ([[0x60, 0xFF, 0x5B]] ! 0) = Some [2, 0, 0, 0, 0] \<and>
   [[0x60, 0xFF, 0x5B], [2, 0, 0, 0, 0 :: byte]] ! 0 = [[0x60, 0xFF, 0x5B]] ! 0 \<and>
   (1::nat) < length [[0x00 :: byte], [0x60, 0xFF, 0x5B]] \<and>
   [[0x00 :: byte], [0x60, 0xFF, 0x5B]] ! 1 = [[0x60, 0xFF, 0x5B]] ! 0 \<and>
   (\<exists>h2' p2. codeBitmap_st [[0x00], [0x60, 0xFF, 0x5B]] 1 = Some (h2', p2) \<and>
      h2' ! p2 = [2, 0, 0, 0, 0]) \<and>
   (\<exists>h'' p'. codeBitmap_st [[0x60, 0xFF, 0x5B], [2, 0, 0, 0, 0]] 0 = Some (h'', p') \<and>
      p' \<noteq> 1 \<and> h'' ! p' = [2, 0, 0, 0, 0] \<and> h'' ! 1 = [2, 0, 0, 0, 0])"
proof -
  let ?c = "[0x60, 0xFF, 0x5B] :: byte list"
  let ?b = "[2, 0, 0, 0, 0] :: byte list"
  have l: "(0::nat) < length [?c]" by simp
  have v: "codeBitmap_st [?c] 0 = Some ([?c, ?b], 1)" by code_simp
  have l2: "(1::nat) < length [[0x00 :: byte], ?c]" and e2: "[[0x00 :: byte], ?c] ! 1 = [?c] ! 0"
    by simp_all
  from C9_codeBitmap_is_pure [OF l] v
  have pb: "codeBitmap ([?c] ! 0) = Some ?b"
    and keep: "\<forall>q<length [?c]. [?c, ?b] ! q = [?c] ! q"
    and det: "\<forall>h2 a2. a2 < length h2 \<and> h2 ! a2 = [?c] ! 0 \<longrightarrow>
              (\<exists>h2' p2. codeBitmap_st h2 a2 = Some (h2', p2) \<and> h2' ! p2 = ?b)"
    and again: "\<exists>h'' p'. codeBitmap_st [?c, ?b] 0 = Some (h'', p') \<and> p' \<noteq> 1 \<and>
              h'' ! p' = ?b \<and> h'' ! 1 = ?b \<and> (\<forall>q<length [?c]. h'' ! q = [?c] ! q)"
    by auto
  from keep l have k0: "[?c, ?b] ! 0 = [?c] ! 0" by blast
  from det l2 e2 have d2: "\<exists>h2' p2. codeBitmap_st [[0x00], ?c] 1 = Some (h2', p2) \<and> h2' ! p2 = ?b"
    by blast
  from again have a2: "\<exists>h'' p'. codeBitmap_st [?c, ?b] 0 = Some (h'', p') \<and> p' \<noteq> 1 \<and>
              h'' ! p' = ?b \<and> h'' ! 1 = ?b" by blast
  from l v pb k0 l2 e2 d2 a2 show ?thesis by blast
qed

end
